theory Spec2Isabelle
  imports Main "HOL-Library.Word"
begin

unbundle bit_operations_syntax

section \<open>The gzip compressor of network/compression.go\<close>

text \<open>
  The file under study is a thin adapter over Go's \<^verbatim>\<open>compress/gzip\<close>, \<^verbatim>\<open>bytes\<close> and
  \<^verbatim>\<open>io\<close> packages. The adapter (the struct \<^verbatim>\<open>gzipCompressor\<close> and its methods) is
  embedded method by method, with explicit state passing: a method takes the receiver
  and the heap and returns its result together with the new receiver and heap. Go's
  \<^verbatim>\<open>(value, error)\<close> result is a sum, \<open>Inl\<close> carrying the error.

  The library objects the adapter drives (\<^verbatim>\<open>bytes.Buffer\<close>, \<^verbatim>\<open>bytes.Reader\<close>,
  \<^verbatim>\<open>gzip.Writer\<close>, \<^verbatim>\<open>gzip.Reader\<close>) are not part of the repository. They are modelled
  after the library's behaviour: the gzip container (RFC 1952: header, CRC-32/ISIZE
  trailer, member concatenation) is written out, the DEFLATE coder inside it is a
  parameter.
\<close>

subsection \<open>Bytes, addresses, errors\<close>

type_synonym byte = "8 word"
type_synonym uint32 = "32 word"
type_synonym addr = nat

text \<open>
  The error values that can leave \<^verbatim>\<open>Compress\<close> and \<^verbatim>\<open>Decompress\<close>: \<^verbatim>\<open>io.EOF\<close>,
  \<^verbatim>\<open>io.ErrUnexpectedEOF\<close>, \<^verbatim>\<open>gzip.ErrHeader\<close>, \<^verbatim>\<open>gzip.ErrChecksum\<close>,
  \<^verbatim>\<open>flate.CorruptInputError\<close>, \<^verbatim>\<open>flate.InternalError\<close>, and the run-time panic of a
  method call through a nil pointer.
\<close>

datatype error =
    EOF
  | ErrUnexpectedEOF
  | ErrHeader
  | ErrChecksum
  | CorruptInputError
  | InternalError
  | NilPointerPanic

subsection \<open>The two advisory predicates\<close>

text \<open>\<^verbatim>\<open>const compressionThresholdBytes = 128\<close>\<close>

definition compressionThresholdBytes :: nat where
  "compressionThresholdBytes = 128"

text \<open>\<^verbatim>\<open>func (g *gzipCompressor) IsDecompressable(msg []byte) bool { return len(msg) > 10 }\<close>\<close>

definition IsDecompressable :: "byte list \<Rightarrow> bool" where
  "IsDecompressable msg = (length msg > 10)"

text \<open>\<^verbatim>\<open>func (g *gzipCompressor) IsCompressable(msg []byte) bool
  { return len(msg) > compressionThresholdBytes }\<close>\<close>

definition IsCompressable :: "byte list \<Rightarrow> bool" where
  "IsCompressable msg = (length msg > compressionThresholdBytes)"

subsection \<open>hash/crc32 and encoding/binary\<close>

text \<open>
  \<^verbatim>\<open>crc32.IEEE\<close>, the table of \<^verbatim>\<open>simplePopulateTable\<close> (eight shift steps per entry) and
  \<^verbatim>\<open>simpleUpdate\<close>: \<^verbatim>\<open>crc = ^crc; for v in p { crc = tab[byte(crc)^v] ^ (crc >> 8) }; return ^crc\<close>.
\<close>

definition IEEE :: uint32 where
  "IEEE = 0xedb88320"

definition crc_shift :: "uint32 \<Rightarrow> uint32" where
  "crc_shift crc = (if crc AND 1 = 1 then drop_bit 1 crc XOR IEEE else drop_bit 1 crc)"

definition IEEETable :: "byte \<Rightarrow> uint32" where
  "IEEETable i =
     crc_shift (crc_shift (crc_shift (crc_shift
       (crc_shift (crc_shift (crc_shift (crc_shift (ucast i))))))))"

definition crc32_Update :: "uint32 \<Rightarrow> byte list \<Rightarrow> uint32" where
  "crc32_Update crc p =
     NOT (fold (\<lambda>v c. IEEETable (ucast c XOR v) XOR drop_bit 8 c) p (NOT crc))"

text \<open>\<^verbatim>\<open>binary.LittleEndian\<close>: \<^verbatim>\<open>PutUint32\<close>, \<^verbatim>\<open>Uint32\<close>, \<^verbatim>\<open>PutUint16\<close>, \<^verbatim>\<open>Uint16\<close>. The readers
  are only ever applied to slices that are long enough.\<close>

definition le_PutUint32 :: "uint32 \<Rightarrow> byte list" where
  "le_PutUint32 v = [ucast v, ucast (drop_bit 8 v), ucast (drop_bit 16 v), ucast (drop_bit 24 v)]"

fun le_Uint32 :: "byte list \<Rightarrow> uint32" where
  "le_Uint32 (b0 # b1 # b2 # b3 # _) =
     ucast b0 OR push_bit 8 (ucast b1) OR push_bit 16 (ucast b2) OR push_bit 24 (ucast b3)"
| "le_Uint32 _ = 0"

definition le_PutUint16 :: "16 word \<Rightarrow> byte list" where
  "le_PutUint16 v = [ucast v, ucast (drop_bit 8 v)]"

fun le_Uint16 :: "byte list \<Rightarrow> 16 word" where
  "le_Uint16 (b0 # b1 # _) = ucast b0 OR push_bit 8 (ucast b1)"
| "le_Uint16 _ = 0"

subsection \<open>The heap: byte arrays and library objects\<close>

text \<open>
  A \<^verbatim>\<open>[]byte\<close> value is a slice: the address of its backing array and its length (all
  slices here start at offset 0; the capacity is the size of the backing array). The nil
  slice is \<open>None\<close>. Pointers to library objects are addresses into one map per object
  type; a nil pointer is \<open>None\<close>. All allocations draw from one counter.
\<close>

record slice =
  sl_arr :: addr
  sl_len :: nat

text \<open>\<^verbatim>\<open>bytes.Buffer\<close>: the field \<^verbatim>\<open>buf\<close>. The read offset \<^verbatim>\<open>off\<close> is 0 throughout, since
  nothing in the adapter reads from the buffer.\<close>

record Buffer =
  buf :: "slice option"

text \<open>
  \<^verbatim>\<open>gzip.Writer\<close>: the destination \<^verbatim>\<open>w\<close> (always the adapter's \<^verbatim>\<open>*bytes.Buffer\<close>), the flate
  compressor (\<open>None\<close> while nil, otherwise the input it has taken since its last reset),
  \<^verbatim>\<open>digest\<close>, \<^verbatim>\<open>size\<close>, \<^verbatim>\<open>closed\<close>, \<^verbatim>\<open>wroteHeader\<close> and the sticky \<^verbatim>\<open>err\<close>. The level is
  \<^verbatim>\<open>DefaultCompression\<close> and the header fields are the zero \<^verbatim>\<open>Header\<close> with \<^verbatim>\<open>OS = 255\<close>.
\<close>

record Writer =
  w_w :: addr
  w_compressor :: "byte list option"
  w_digest :: uint32
  w_size :: uint32
  w_closed :: bool
  w_wroteHeader :: bool
  w_err :: "error option"

text \<open>\<^verbatim>\<open>bytes.Reader\<close>: the bytes \<^verbatim>\<open>s\<close> and the read index \<^verbatim>\<open>i\<close>.\<close>

record bytes_Reader =
  br_s :: "byte list"
  br_i :: nat

text \<open>
  \<^verbatim>\<open>gzip.Reader\<close>: the source \<^verbatim>\<open>r\<close> (always the adapter's \<^verbatim>\<open>*bytes.Reader\<close>, which is a
  \<^verbatim>\<open>flate.Reader\<close> and so is read without buffering), the flate decompressor (\<open>None\<close> while
  nil, otherwise its sticky error) and the sticky \<^verbatim>\<open>err\<close>. \<^verbatim>\<open>multistream\<close> is always true;
  \<^verbatim>\<open>digest\<close> and \<^verbatim>\<open>size\<close> are zero whenever a read of member data starts and live inside
  \<open>read_members\<close> below.
\<close>

record Reader =
  r_r :: addr
  r_decompressor :: "error option option"
  r_err :: "error option"

record heap =
  nextAddr :: addr
  arrays :: "addr \<rightharpoonup> byte list"
  buffers :: "addr \<rightharpoonup> Buffer"
  writers :: "addr \<rightharpoonup> Writer"
  bytesReaders :: "addr \<rightharpoonup> bytes_Reader"
  readers :: "addr \<rightharpoonup> Reader"

definition empty_heap :: heap where
  "empty_heap = \<lparr>nextAddr = 0, arrays = Map.empty, buffers = Map.empty, writers = Map.empty,
     bytesReaders = Map.empty, readers = Map.empty\<rparr>"

text \<open>\<^verbatim>\<open>make([]byte, n, c)\<close>: a fresh zeroed array of \<open>c\<close> bytes and a slice of its first \<open>n\<close>.\<close>

definition make_bytes :: "nat \<Rightarrow> nat \<Rightarrow> heap \<Rightarrow> slice \<times> heap" where
  "make_bytes n c h =
     (\<lparr>sl_arr = nextAddr h, sl_len = n\<rparr>,
      h\<lparr>nextAddr := Suc (nextAddr h), arrays := (arrays h)(nextAddr h \<mapsto> replicate c 0)\<rparr>)"

text \<open>\<^verbatim>\<open>len(s)\<close>, \<^verbatim>\<open>cap(s)\<close> and the bytes a slice denotes in a heap.\<close>

definition slice_len :: "slice option \<Rightarrow> nat" where
  "slice_len s = (case s of None \<Rightarrow> 0 | Some sl \<Rightarrow> sl_len sl)"

definition slice_cap :: "heap \<Rightarrow> slice option \<Rightarrow> nat" where
  "slice_cap h s = (case s of None \<Rightarrow> 0 | Some sl \<Rightarrow>
     (case arrays h (sl_arr sl) of None \<Rightarrow> 0 | Some a \<Rightarrow> length a))"

definition slice_bytes :: "heap \<Rightarrow> slice option \<Rightarrow> byte list" where
  "slice_bytes h s = (case s of None \<Rightarrow> [] | Some sl \<Rightarrow>
     (case arrays h (sl_arr sl) of None \<Rightarrow> [] | Some a \<Rightarrow> take (sl_len sl) a))"

text \<open>\<^verbatim>\<open>copy(dst[m:], src)\<close>: overwrites the backing array of \<open>dst\<close> in place, from index
  \<open>m\<close>, with as many bytes of \<open>src\<close> as fit below \<^verbatim>\<open>len(dst)\<close>.\<close>

definition write_at :: "nat \<Rightarrow> byte list \<Rightarrow> byte list \<Rightarrow> byte list" where
  "write_at m p a = take m a @ take (length a - m) p @ drop (m + length p) a"

definition copy_bytes :: "slice \<Rightarrow> nat \<Rightarrow> byte list \<Rightarrow> heap \<Rightarrow> heap" where
  "copy_bytes dst m src h =
     (case arrays h (sl_arr dst) of None \<Rightarrow> h
      | Some a \<Rightarrow> h\<lparr>arrays := (arrays h)(sl_arr dst \<mapsto> write_at m (take (sl_len dst - m) src) a)\<rparr>)"

subsection \<open>bytes.Buffer\<close>

definition smallBufferSize :: nat where
  "smallBufferSize = 64"

text \<open>\<^verbatim>\<open>var buf bytes.Buffer; &buf\<close>: a new empty buffer.\<close>

definition new_Buffer :: "heap \<Rightarrow> addr \<times> heap" where
  "new_Buffer h =
     (nextAddr h,
      h\<lparr>nextAddr := Suc (nextAddr h), buffers := (buffers h)(nextAddr h \<mapsto> \<lparr>buf = None\<rparr>)\<rparr>)"

text \<open>\<^verbatim>\<open>func (b *Buffer) Reset() { b.buf = b.buf[:0]; b.off = 0 }\<close>: the backing array is
  kept and will be overwritten by the next writes.\<close>

definition Buffer_Reset :: "addr \<Rightarrow> heap \<Rightarrow> error option \<times> heap" where
  "Buffer_Reset pb h =
     (case buffers h pb of None \<Rightarrow> (Some NilPointerPanic, h)
      | Some b \<Rightarrow>
          (None, h\<lparr>buffers := (buffers h)(pb \<mapsto> b\<lparr>buf := map_option (\<lambda>s. s\<lparr>sl_len := 0\<rparr>) (buf b)\<rparr>)\<rparr>))"

text \<open>\<^verbatim>\<open>func (b *Buffer) Bytes() []byte { return b.buf[b.off:] }\<close>: a slice that aliases the
  buffer's backing array.\<close>

definition Buffer_Bytes :: "addr \<Rightarrow> heap \<Rightarrow> error + slice option" where
  "Buffer_Bytes pb h = (case buffers h pb of None \<Rightarrow> Inl NilPointerPanic | Some b \<Rightarrow> Inr (buf b))"

text \<open>
  \<^verbatim>\<open>tryGrowByReslice\<close> followed by \<^verbatim>\<open>grow\<close>: reslice when the capacity suffices; a first
  small write allocates \<^verbatim>\<open>smallBufferSize\<close> bytes; otherwise a new array of
  \<^verbatim>\<open>2*cap + n\<close> bytes takes over the contents. (The sliding branch of \<^verbatim>\<open>grow\<close> is
  not reachable once the reslice has failed: \<^verbatim>\<open>n > cap - m\<close> excludes \<^verbatim>\<open>n <= cap/2 - m\<close>.
  The \<^verbatim>\<open>ErrTooLarge\<close> panic needs an exhausted address space, which the heap here does
  not have.)
\<close>

definition Buffer_grow :: "addr \<Rightarrow> Buffer \<Rightarrow> nat \<Rightarrow> heap \<Rightarrow> heap" where
  "Buffer_grow pb b n h =
     (let m = slice_len (buf b); c = slice_cap h (buf b) in
      if n \<le> c - m then
        h\<lparr>buffers := (buffers h)(pb \<mapsto> b\<lparr>buf := map_option (\<lambda>s. s\<lparr>sl_len := m + n\<rparr>) (buf b)\<rparr>)\<rparr>
      else if buf b = None \<and> n \<le> smallBufferSize then
        (let (s, h1) = make_bytes n smallBufferSize h
         in h1\<lparr>buffers := (buffers h1)(pb \<mapsto> b\<lparr>buf := Some s\<rparr>)\<rparr>)
      else
        (let (s, h1) = make_bytes (2 * c + n) (2 * c + n) h;
             h2 = copy_bytes s 0 (slice_bytes h1 (buf b)) h1
         in h2\<lparr>buffers := (buffers h2)(pb \<mapsto> b\<lparr>buf := Some (s\<lparr>sl_len := m + n\<rparr>)\<rparr>)\<rparr>))"

text \<open>\<^verbatim>\<open>func (b *Buffer) Write(p []byte) (n int, err error)\<close>: grows, then
  \<^verbatim>\<open>copy(b.buf[m:], p)\<close>; the error is always nil.\<close>

definition Buffer_Write :: "addr \<Rightarrow> byte list \<Rightarrow> heap \<Rightarrow> error option \<times> heap" where
  "Buffer_Write pb p h =
     (case buffers h pb of None \<Rightarrow> (Some NilPointerPanic, h)
      | Some b \<Rightarrow>
          (let m = slice_len (buf b);
               h1 = Buffer_grow pb b (length p) h
           in case buffers h1 pb of None \<Rightarrow> (Some NilPointerPanic, h1)
              | Some b1 \<Rightarrow>
                 (case buf b1 of None \<Rightarrow> (None, h1)
                  | Some s \<Rightarrow> (None, copy_bytes s m p h1))))"

subsection \<open>compress/flate, as a parameter\<close>

text \<open>
  The DEFLATE coder is a pair of functions: \<open>deflate\<close> maps the input a compressor has
  taken between its reset and its \<^verbatim>\<open>Close\<close> to the bytes it has emitted by then;
  \<open>inflate\<close> decodes one DEFLATE stream from the front of its input and returns the
  decoded bytes with the number of input bytes it consumed, or fails.
\<close>

datatype flate_error = CorruptInput | UnexpectedEOF | Internal

fun flate_err :: "flate_error \<Rightarrow> error" where
  "flate_err CorruptInput = CorruptInputError"
| "flate_err UnexpectedEOF = ErrUnexpectedEOF"
| "flate_err Internal = InternalError"

record flate =
  deflate :: "byte list \<Rightarrow> byte list"
  inflate :: "byte list \<Rightarrow> flate_error + (byte list \<times> nat)"


subsection \<open>compress/gzip: Writer\<close>

text \<open>The ten header bytes \<^verbatim>\<open>Write\<close> emits for the zero \<^verbatim>\<open>Header\<close>: magic \<^verbatim>\<open>1f 8b\<close>, method
  8 (deflate), no flags, no modification time, no extra flags, \<^verbatim>\<open>OS = 255\<close>.\<close>

definition gzip_header :: "byte list" where
  "gzip_header = [0x1f, 0x8b, 8, 0, 0, 0, 0, 0, 0, 255]"

text \<open>\<^verbatim>\<open>func (z *Writer) init(w io.Writer, level int)\<close>: every field is cleared; an existing
  compressor is kept and reset.\<close>

definition Writer_init :: "addr \<Rightarrow> byte list option \<Rightarrow> Writer" where
  "Writer_init pb c = \<lparr>w_w = pb, w_compressor = c, w_digest = 0, w_size = 0, w_closed = False,
     w_wroteHeader = False, w_err = None\<rparr>"

text \<open>\<^verbatim>\<open>gzip.NewWriter(w)\<close>: a new Writer object.\<close>

definition gzip_NewWriter :: "addr \<Rightarrow> heap \<Rightarrow> addr \<times> heap" where
  "gzip_NewWriter pb h =
     (nextAddr h,
      h\<lparr>nextAddr := Suc (nextAddr h), writers := (writers h)(nextAddr h \<mapsto> Writer_init pb None)\<rparr>)"

text \<open>\<^verbatim>\<open>func (z *Writer) Reset(w io.Writer)\<close>: re-initialises the same object.\<close>

definition Writer_Reset :: "addr \<Rightarrow> addr \<Rightarrow> heap \<Rightarrow> error option \<times> heap" where
  "Writer_Reset pz pb h =
     (case writers h pz of None \<Rightarrow> (Some NilPointerPanic, h)
      | Some z \<Rightarrow>
          (None, h\<lparr>writers := (writers h)
             (pz \<mapsto> Writer_init pb (map_option (\<lambda>_. []) (w_compressor z)))\<rparr>))"

text \<open>
  \<^verbatim>\<open>func (z *Writer) Write(p []byte) (int, error)\<close>: returns the sticky error if there is
  one; on the first call writes the header to \<^verbatim>\<open>z.w\<close> and creates the compressor if it is
  nil; then adds to \<^verbatim>\<open>size\<close> and \<^verbatim>\<open>digest\<close> and hands \<open>p\<close> to the compressor.
\<close>

definition Writer_Write :: "addr \<Rightarrow> byte list \<Rightarrow> heap \<Rightarrow> error option \<times> heap" where
  "Writer_Write pz p h =
     (case writers h pz of None \<Rightarrow> (Some NilPointerPanic, h)
      | Some z \<Rightarrow>
         (case w_err z of Some e \<Rightarrow> (Some e, h)
          | None \<Rightarrow>
             (let (e1, h1) = (if \<not> w_wroteHeader z then Buffer_Write (w_w z) gzip_header h
                              else (None, h));
                  z1 = (if \<not> w_wroteHeader z then z\<lparr>w_wroteHeader := True, w_err := e1\<rparr> else z)
              in case e1 of Some e \<Rightarrow> (Some e, h1\<lparr>writers := (writers h1)(pz \<mapsto> z1)\<rparr>)
                 | None \<Rightarrow>
                    (let c = (if \<not> w_wroteHeader z \<and> w_compressor z1 = None then Some []
                              else w_compressor z1)
                     in case c of
                          None \<Rightarrow> (Some NilPointerPanic, h1\<lparr>writers := (writers h1)(pz \<mapsto> z1)\<rparr>)
                        | Some pending \<Rightarrow>
                           (None, h1\<lparr>writers := (writers h1)(pz \<mapsto>
                              z1\<lparr>w_size := w_size z1 + of_nat (length p),
                                 w_digest := crc32_Update (w_digest z1) p,
                                 w_compressor := Some (pending @ p)\<rparr>)\<rparr>)))))"

text \<open>
  \<^verbatim>\<open>func (z *Writer) Close() error\<close>: returns the sticky error if there is one and nil if
  already closed; writes the header if nothing was written; closes the compressor, which
  emits the DEFLATE stream to \<^verbatim>\<open>z.w\<close>; then writes the trailer, \<^verbatim>\<open>digest\<close> and \<^verbatim>\<open>size\<close> in
  little-endian order. Each write's error becomes the sticky error.
\<close>

definition Writer_Close :: "flate \<Rightarrow> addr \<Rightarrow> heap \<Rightarrow> error option \<times> heap" where
  "Writer_Close fl pz h =
     (case writers h pz of None \<Rightarrow> (Some NilPointerPanic, h)
      | Some z \<Rightarrow>
         (case w_err z of Some e \<Rightarrow> (Some e, h)
          | None \<Rightarrow>
             if w_closed z then (None, h)
             else
               (let h0 = h\<lparr>writers := (writers h)(pz \<mapsto> z\<lparr>w_closed := True\<rparr>)\<rparr>;
                    (e1, h1) = (if \<not> w_wroteHeader z then Writer_Write pz [] h0 else (None, h0))
                in case writers h1 pz of None \<Rightarrow> (Some NilPointerPanic, h1)
                   | Some z1 \<Rightarrow>
                      (case w_err z1 of Some e \<Rightarrow> (Some e, h1)
                       | None \<Rightarrow>
                          (case w_compressor z1 of None \<Rightarrow> (Some NilPointerPanic, h1)
                           | Some pending \<Rightarrow>
                              (let (e2, h2) = Buffer_Write (w_w z1) (deflate fl pending) h1
                               in case e2 of
                                    Some e \<Rightarrow> (Some e, h2\<lparr>writers := (writers h2)(pz \<mapsto> z1\<lparr>w_err := Some e\<rparr>)\<rparr>)
                                  | None \<Rightarrow>
                                     (let (e3, h3) = Buffer_Write (w_w z1)
                                            (le_PutUint32 (w_digest z1) @ le_PutUint32 (w_size z1)) h2
                                      in (e3, h3\<lparr>writers := (writers h3)(pz \<mapsto> z1\<lparr>w_err := e3\<rparr>)\<rparr>))))))))"

subsection \<open>bytes.Reader\<close>

text \<open>\<^verbatim>\<open>bytes.NewReader(b)\<close> and \<^verbatim>\<open>func (r *Reader) Reset(b []byte)\<close>.\<close>

definition bytes_NewReader :: "byte list \<Rightarrow> heap \<Rightarrow> addr \<times> heap" where
  "bytes_NewReader b h =
     (nextAddr h,
      h\<lparr>nextAddr := Suc (nextAddr h),
        bytesReaders := (bytesReaders h)(nextAddr h \<mapsto> \<lparr>br_s = b, br_i = 0\<rparr>)\<rparr>)"

definition bytes_Reader_Reset :: "addr \<Rightarrow> byte list \<Rightarrow> heap \<Rightarrow> error option \<times> heap" where
  "bytes_Reader_Reset pr b h =
     (case bytesReaders h pr of None \<Rightarrow> (Some NilPointerPanic, h)
      | Some _ \<Rightarrow> (None, h\<lparr>bytesReaders := (bytesReaders h)(pr \<mapsto> \<lparr>br_s = b, br_i = 0\<rparr>)\<rparr>))"

subsection \<open>compress/gzip: Reader\<close>

text \<open>
  The parsing functions work on the unread input and return what they read together with
  the input left, or the error. The read position a failed read leaves behind is not
  kept: every later use of the reader starts with \<^verbatim>\<open>NewReader\<close> or \<^verbatim>\<open>Reset\<close>.
\<close>

definition noEOF :: "error \<Rightarrow> error" where
  "noEOF e = (if e = EOF then ErrUnexpectedEOF else e)"

text \<open>\<^verbatim>\<open>io.ReadFull\<close>: \<^verbatim>\<open>io.EOF\<close> when nothing could be read, \<^verbatim>\<open>io.ErrUnexpectedEOF\<close> when the
  input ends early.\<close>

definition io_ReadFull :: "nat \<Rightarrow> byte list \<Rightarrow> error + (byte list \<times> byte list)" where
  "io_ReadFull n xs =
     (if n \<le> length xs then Inr (take n xs, drop n xs)
      else if xs = [] then Inl EOF else Inl ErrUnexpectedEOF)"

text \<open>\<^verbatim>\<open>func (z *Reader) readString()\<close>: bytes up to and including the first NUL;
  \<^verbatim>\<open>ErrHeader\<close> when 512 bytes hold none, \<^verbatim>\<open>io.EOF\<close> when the input ends first.\<close>

definition readString :: "byte list \<Rightarrow> error + (byte list \<times> byte list)" where
  "readString xs =
     (let k = length (takeWhile (\<lambda>b. b \<noteq> 0) xs) in
      if k < length xs \<and> k < 512 then Inr (take (Suc k) xs, drop (Suc k) xs)
      else if 512 \<le> length xs then Inl ErrHeader
      else Inl EOF)"

text \<open>The optional header fields of \<^verbatim>\<open>readHeader\<close>: FEXTRA, FNAME and FCOMMENT (each
  folded into the running header digest) and FHCRC (compared with its low 16 bits).\<close>

definition readExtraField :: "uint32 \<Rightarrow> byte list \<Rightarrow> error + (uint32 \<times> byte list)" where
  "readExtraField dg xs =
     (case io_ReadFull 2 xs of Inl e \<Rightarrow> Inl (noEOF e)
      | Inr (l2, xs1) \<Rightarrow>
         (case io_ReadFull (unat (le_Uint16 l2)) xs1 of Inl e \<Rightarrow> Inl (noEOF e)
          | Inr (data, xs2) \<Rightarrow> Inr (crc32_Update (crc32_Update dg l2) data, xs2)))"

definition readStringField :: "uint32 \<Rightarrow> byte list \<Rightarrow> error + (uint32 \<times> byte list)" where
  "readStringField dg xs =
     (case readString xs of Inl e \<Rightarrow> Inl (noEOF e)
      | Inr (raw, xs1) \<Rightarrow> Inr (crc32_Update dg raw, xs1))"

definition readHdrCrc :: "uint32 \<Rightarrow> byte list \<Rightarrow> error + (uint32 \<times> byte list)" where
  "readHdrCrc dg xs =
     (case io_ReadFull 2 xs of Inl e \<Rightarrow> Inl (noEOF e)
      | Inr (c2, xs1) \<Rightarrow> if le_Uint16 c2 \<noteq> ucast dg then Inl ErrHeader else Inr (dg, xs1))"

definition header_field ::
  "bool \<Rightarrow> (uint32 \<Rightarrow> byte list \<Rightarrow> error + (uint32 \<times> byte list)) \<Rightarrow>
   error + (uint32 \<times> byte list) \<Rightarrow> error + (uint32 \<times> byte list)" where
  "header_field present rd st =
     (case st of Inl e \<Rightarrow> Inl e
      | Inr (dg, xs) \<Rightarrow> if present then rd dg xs else Inr (dg, xs))"

text \<open>
  \<^verbatim>\<open>func (z *Reader) readHeader() (hdr Header, err error)\<close>: ten bytes (their
  \<^verbatim>\<open>io.ReadFull\<close> error is returned as it is, so an empty input gives \<^verbatim>\<open>io.EOF\<close>), the magic
  and the method, then the optional fields the flag byte announces. The result is the
  input after the header.
\<close>

definition readHeader :: "byte list \<Rightarrow> error + byte list" where
  "readHeader xs =
     (case io_ReadFull 10 xs of Inl e \<Rightarrow> Inl e
      | Inr (hb, xs1) \<Rightarrow>
         if hb ! 0 \<noteq> 0x1f \<or> hb ! 1 \<noteq> 0x8b \<or> hb ! 2 \<noteq> 8 then Inl ErrHeader
         else
           (let flg = hb ! 3;
                st0 = Inr (crc32_Update 0 hb, xs1);
                st1 = header_field (flg AND 4 \<noteq> 0) readExtraField st0;
                st2 = header_field (flg AND 8 \<noteq> 0) readStringField st1;
                st3 = header_field (flg AND 16 \<noteq> 0) readStringField st2;
                st4 = header_field (flg AND 2 \<noteq> 0) readHdrCrc st3
            in case st4 of Inl e \<Rightarrow> Inl e | Inr (_, rest) \<Rightarrow> Inr rest))"

lemma io_ReadFull_length:
  "io_ReadFull n xs = Inr (ys, zs) \<Longrightarrow> length zs + n = length xs"
  by (auto simp: io_ReadFull_def split: if_splits)

lemma io_ReadFull_suffix:
  "io_ReadFull n xs = Inr (ys, zs) \<Longrightarrow> xs = ys @ zs \<and> length ys = n"
  by (auto simp: io_ReadFull_def split: if_splits)

lemma readString_suffix:
  "readString xs = Inr (ys, zs) \<Longrightarrow> xs = ys @ zs"
  by (auto simp: readString_def Let_def split: if_splits)

lemma readExtraField_suffix:
  "readExtraField d xs = Inr (d', zs) \<Longrightarrow> \<exists>ys. xs = ys @ zs"
  by (auto simp: readExtraField_def split: sum.splits dest!: io_ReadFull_suffix)

lemma readStringField_suffix:
  "readStringField d xs = Inr (d', zs) \<Longrightarrow> \<exists>ys. xs = ys @ zs"
  by (auto simp: readStringField_def split: sum.splits dest!: readString_suffix)

lemma readHdrCrc_suffix:
  "readHdrCrc d xs = Inr (d', zs) \<Longrightarrow> \<exists>ys. xs = ys @ zs"
  by (auto simp: readHdrCrc_def split: sum.splits if_splits dest!: io_ReadFull_suffix)

lemma field_suffix_all:
  "\<forall>d ys d' ws. readHdrCrc d ys = Inr (d', ws) \<longrightarrow> (\<exists>pre. ys = pre @ ws)"
  "\<forall>d ys d' ws. readStringField d ys = Inr (d', ws) \<longrightarrow> (\<exists>pre. ys = pre @ ws)"
  "\<forall>d ys d' ws. readExtraField d ys = Inr (d', ws) \<longrightarrow> (\<exists>pre. ys = pre @ ws)"
  using readHdrCrc_suffix readStringField_suffix readExtraField_suffix by blast+

lemma header_field_suffix:
  assumes "header_field p rd st = Inr (dg', zs)"
    and "\<forall>d ys d' ws. rd d ys = Inr (d', ws) \<longrightarrow> (\<exists>pre. ys = pre @ ws)"
  shows "\<exists>dg xs pre. st = Inr (dg, xs) \<and> xs = pre @ zs"
  using assms by (cases st) (auto simp: header_field_def split: if_splits)

text \<open>A header that parses is a prefix of the input, at least ten bytes long.\<close>

lemma readHeader_suffix:
  assumes "readHeader xs = Inr zs"
  shows "\<exists>ys. xs = ys @ zs \<and> 10 \<le> length ys"
proof -
  from assms obtain hb xs1 where rf: "io_ReadFull 10 xs = Inr (hb, xs1)"
    by (auto simp: readHeader_def split: sum.splits)
  define flg where "flg = hb ! 3"
  define st1 where "st1 = header_field (flg AND 4 \<noteq> 0) readExtraField (Inr (crc32_Update 0 hb, xs1))"
  define st2 where "st2 = header_field (flg AND 8 \<noteq> 0) readStringField st1"
  define st3 where "st3 = header_field (flg AND 16 \<noteq> 0) readStringField st2"
  define st4 where "st4 = header_field (flg AND 2 \<noteq> 0) readHdrCrc st3"
  from assms rf obtain d4 where s4: "st4 = Inr (d4, zs)"
    by (auto simp: readHeader_def Let_def st4_def st3_def st2_def st1_def flg_def
        split: sum.splits if_splits)
  from header_field_suffix [OF s4 [unfolded st4_def] field_suffix_all(1)]
  obtain d3 x3 p3 where s3: "st3 = Inr (d3, x3)" "x3 = p3 @ zs" by blast
  from header_field_suffix [OF s3(1) [unfolded st3_def] field_suffix_all(2)]
  obtain d2 x2 p2 where s2: "st2 = Inr (d2, x2)" "x2 = p2 @ x3" by blast
  from header_field_suffix [OF s2(1) [unfolded st2_def] field_suffix_all(2)]
  obtain d1 x1 p1 where s1: "st1 = Inr (d1, x1)" "x1 = p1 @ x2" by blast
  from header_field_suffix [OF s1(1) [unfolded st1_def] field_suffix_all(3)]
  obtain p0 where s0: "xs1 = p0 @ x1" by blast
  from rf have "xs = hb @ xs1" "length hb = 10" by (auto dest: io_ReadFull_suffix)
  with s0 s1 s2 s3 have "xs = (hb @ p0 @ p1 @ p2 @ p3) @ zs" "10 \<le> length (hb @ p0 @ p1 @ p2 @ p3)"
    by simp_all
  then show ?thesis by blast
qed

lemma readHeader_length:
  "readHeader xs = Inr zs \<Longrightarrow> length zs + 10 \<le> length xs"
  by (auto dest!: readHeader_suffix)

text \<open>
  \<^verbatim>\<open>func (z *Reader) Read(p []byte)\<close>, iterated to the end of the input as
  \<^verbatim>\<open>io.ReadAll\<close> iterates it: decode the member's DEFLATE stream; read the eight trailer
  bytes and compare them with the CRC-32 and the length (modulo \<open>2^32\<close>) of the decoded
  data; read the next header, where \<^verbatim>\<open>io.EOF\<close> ends the stream and a header starts the
  next member. The second component is the decompressor's sticky error afterwards.
\<close>

function read_members :: "flate \<Rightarrow> byte list \<Rightarrow> (error + byte list) \<times> error option" where
  "read_members fl xs =
     (case inflate fl xs of
        Inl e \<Rightarrow> (Inl (flate_err e), Some (flate_err e))
      | Inr (d, n) \<Rightarrow>
         (case io_ReadFull 8 (drop n xs) of
            Inl e \<Rightarrow> (Inl (noEOF e), Some EOF)
          | Inr (tr, ys) \<Rightarrow>
             if le_Uint32 tr \<noteq> crc32_Update 0 d \<or> le_Uint32 (drop 4 tr) \<noteq> of_nat (length d)
             then (Inl ErrChecksum, Some EOF)
             else
               (case readHeader ys of
                  Inl e \<Rightarrow> (if e = EOF then Inr d else Inl e, Some EOF)
                | Inr zs \<Rightarrow>
                   (case read_members fl zs of
                      (Inl e, fe) \<Rightarrow> (Inl e, fe)
                    | (Inr d', fe) \<Rightarrow> (Inr (d @ d'), fe)))))"
  by pat_completeness auto
termination
proof (relation "measure (\<lambda>(fl, xs). length xs)")
  show "wf (measure (\<lambda>(fl, xs). length xs))" by simp
next
  fix fl xs x2 d n x2a tr ys x2b
  assume "io_ReadFull 8 (drop n xs) = Inr x2a" "(tr, ys) = x2a" "readHeader ys = Inr x2b"
  then have "length ys + 8 = length (drop n xs)" "length x2b + 10 \<le> length ys"
    by (auto dest: io_ReadFull_length readHeader_length)
  then show "((fl, x2b), fl, xs) \<in> measure (\<lambda>(fl, xs). length xs)"
    by simp
qed

declare read_members.simps [simp del]

text \<open>
  \<^verbatim>\<open>func (z *Reader) Reset(r io.Reader) error\<close>: clears the object but for its
  decompressor, binds it to \<open>r\<close> and reads the first header; a header that parses resets
  (or creates) the decompressor. The error is kept as the sticky error and returned.
\<close>

definition Reader_Reset :: "addr \<Rightarrow> addr \<Rightarrow> heap \<Rightarrow> error option \<times> heap" where
  "Reader_Reset pz pr h =
     (case readers h pz of None \<Rightarrow> (Some NilPointerPanic, h)
      | Some z \<Rightarrow>
         (case bytesReaders h pr of None \<Rightarrow> (Some NilPointerPanic, h)
          | Some br \<Rightarrow>
             (case readHeader (drop (br_i br) (br_s br)) of
                Inl e \<Rightarrow>
                  (Some e, h\<lparr>readers := (readers h)(pz \<mapsto>
                     \<lparr>r_r = pr, r_decompressor = r_decompressor z, r_err = Some e\<rparr>)\<rparr>)
              | Inr rest \<Rightarrow>
                  (None, h\<lparr>readers := (readers h)(pz \<mapsto>
                     \<lparr>r_r = pr, r_decompressor = Some None, r_err = None\<rparr>),
                    bytesReaders := (bytesReaders h)(pr \<mapsto>
                     br\<lparr>br_i := length (br_s br) - length rest\<rparr>)\<rparr>))))"

text \<open>\<^verbatim>\<open>gzip.NewReader(r)\<close>: \<^verbatim>\<open>z := new(Reader)\<close>, then \<^verbatim>\<open>z.Reset(r)\<close>; on an error the
  result is \<^verbatim>\<open>(nil, err)\<close>.\<close>

definition gzip_NewReader :: "addr \<Rightarrow> heap \<Rightarrow> (error + addr) \<times> heap" where
  "gzip_NewReader pr h =
     (let pz = nextAddr h;
          h1 = h\<lparr>nextAddr := Suc pz, readers := (readers h)(pz \<mapsto>
                 \<lparr>r_r = pr, r_decompressor = None, r_err = None\<rparr>)\<rparr>
      in case Reader_Reset pz pr h1 of
           (Some e, h2) \<Rightarrow> (Inl e, h2)
         | (None, h2) \<Rightarrow> (Inr pz, h2))"

text \<open>\<^verbatim>\<open>func (z *Reader) Close() error { return z.decompressor.Close() }\<close>, where the
  decompressor's \<^verbatim>\<open>Close\<close> returns nil for \<^verbatim>\<open>io.EOF\<close> and its sticky error otherwise.\<close>

definition Reader_Close :: "addr \<Rightarrow> heap \<Rightarrow> error option" where
  "Reader_Close pz h =
     (case readers h pz of None \<Rightarrow> Some NilPointerPanic
      | Some z \<Rightarrow>
         (case r_decompressor z of None \<Rightarrow> Some NilPointerPanic
          | Some ferr \<Rightarrow> if ferr = Some EOF then None else ferr))"

subsection \<open>io.ReadAll over a gzip Reader\<close>

text \<open>
  \<^verbatim>\<open>io.ReadAll(r)\<close>: reads until an error; \<^verbatim>\<open>io.EOF\<close> is the normal end and is returned as
  nil. A Reader whose sticky error is set returns that error at once. The result is a
  slice of a new array (its spare capacity is not represented).
\<close>

definition io_ReadAll :: "flate \<Rightarrow> addr \<Rightarrow> heap \<Rightarrow> (error + slice) \<times> heap" where
  "io_ReadAll fl pz h =
     (case readers h pz of None \<Rightarrow> (Inl NilPointerPanic, h)
      | Some z \<Rightarrow>
         (case r_err z of
            Some e \<Rightarrow>
              if e = EOF then (case make_bytes 0 0 h of (s, h1) \<Rightarrow> (Inr s, h1)) else (Inl e, h)
          | None \<Rightarrow>
             (case bytesReaders h (r_r z) of None \<Rightarrow> (Inl NilPointerPanic, h)
              | Some br \<Rightarrow>
                 (case read_members fl (drop (br_i br) (br_s br)) of
                    (Inl e, ferr) \<Rightarrow>
                      (Inl e, h\<lparr>readers := (readers h)(pz \<mapsto>
                         z\<lparr>r_err := Some e, r_decompressor := Some ferr\<rparr>)\<rparr>)
                  | (Inr d, ferr) \<Rightarrow>
                      (let h1 = h\<lparr>readers := (readers h)(pz \<mapsto>
                                  z\<lparr>r_err := Some EOF, r_decompressor := Some ferr\<rparr>),
                                bytesReaders := (bytesReaders h)(r_r z \<mapsto>
                                  br\<lparr>br_i := length (br_s br)\<rparr>)\<rparr>;
                           (s, h2) = make_bytes (length d) (length d) h1
                       in (Inr s, copy_bytes s 0 d h2))))))"


subsection \<open>gzipCompressor\<close>

text \<open>
  \<^verbatim>\<open>type gzipCompressor struct { writerInitialised, readerInitialised bool;
  writeBuffer *bytes.Buffer; gzipWriter *gzip.Writer; bytesReader *bytes.Reader;
  gzipReader *gzip.Reader }\<close>
\<close>

record gzipCompressor =
  writerInitialised :: bool
  readerInitialised :: bool
  writeBuffer :: "addr option"
  gzipWriter :: "addr option"
  bytesReader :: "addr option"
  gzipReader :: "addr option"

text \<open>\<^verbatim>\<open>func NewCompressor() Compressor { return &gzipCompressor{} }\<close>\<close>

definition NewCompressor :: gzipCompressor where
  "NewCompressor = \<lparr>writerInitialised = False, readerInitialised = False, writeBuffer = None,
     gzipWriter = None, bytesReader = None, gzipReader = None\<rparr>"

text \<open>
  \<^verbatim>\<open>func (g *gzipCompressor) resetWriter()\<close>. The first component of the result is the
  panic of a call through a nil pointer, which is all that can go wrong.
\<close>

definition resetWriter :: "gzipCompressor \<Rightarrow> heap \<Rightarrow> error option \<times> gzipCompressor \<times> heap" where
  "resetWriter g h =
     (if \<not> writerInitialised g then
        (let (pb, h1) = new_Buffer h;
             g1 = g\<lparr>writeBuffer := Some pb\<rparr>;
             (pw, h2) = gzip_NewWriter pb h1
         in (None, g1\<lparr>gzipWriter := Some pw, writerInitialised := True\<rparr>, h2))
      else
        (case writeBuffer g of None \<Rightarrow> (Some NilPointerPanic, g, h)
         | Some pb \<Rightarrow>
            (case Buffer_Reset pb h of
               (Some e, h1) \<Rightarrow> (Some e, g, h1)
             | (None, h1) \<Rightarrow>
                (case gzipWriter g of None \<Rightarrow> (Some NilPointerPanic, g, h1)
                 | Some pw \<Rightarrow> (case Writer_Reset pw pb h1 of (e, h2) \<Rightarrow> (e, g, h2))))))"

text \<open>
  \<^verbatim>\<open>func (g *gzipCompressor) resetReader(msg []byte) error\<close>. The first branch assigns
  \<^verbatim>\<open>g.bytesReader\<close> and, when \<^verbatim>\<open>gzip.NewReader\<close> succeeds, \<^verbatim>\<open>g.gzipReader\<close>; it does not
  assign \<^verbatim>\<open>g.readerInitialised\<close>. The second branch lets \<^verbatim>\<open>io.EOF\<close> from \<^verbatim>\<open>Reset\<close> pass.
\<close>

definition resetReader ::
  "byte list \<Rightarrow> gzipCompressor \<Rightarrow> heap \<Rightarrow> error option \<times> gzipCompressor \<times> heap" where
  "resetReader msg g h =
     (if \<not> readerInitialised g then
        (let (pr, h1) = bytes_NewReader msg h;
             g1 = g\<lparr>bytesReader := Some pr\<rparr>
         in case gzip_NewReader pr h1 of
              (Inl e, h2) \<Rightarrow> (Some e, g1, h2)
            | (Inr pz, h2) \<Rightarrow> (None, g1\<lparr>gzipReader := Some pz\<rparr>, h2))
      else
        (case bytesReader g of None \<Rightarrow> (Some NilPointerPanic, g, h)
         | Some pr \<Rightarrow>
            (case bytes_Reader_Reset pr msg h of
               (Some e, h1) \<Rightarrow> (Some e, g, h1)
             | (None, h1) \<Rightarrow>
                (case gzipReader g of None \<Rightarrow> (Some NilPointerPanic, g, h1)
                 | Some pz \<Rightarrow>
                    (case Reader_Reset pz pr h1 of
                       (Some e, h2) \<Rightarrow> if e \<noteq> EOF then (Some e, g, h2) else (None, g, h2)
                     | (None, h2) \<Rightarrow> (None, g, h2))))))"

text \<open>
  \<^verbatim>\<open>func (g *gzipCompressor) Compress(msg []byte) ([]byte, error)\<close>: reset the writer, write
  \<open>msg\<close>, close, then \<^verbatim>\<open>make\<close> a slice as long as \<^verbatim>\<open>g.writeBuffer.Bytes()\<close> and \<^verbatim>\<open>copy\<close> into it.
\<close>

definition Compress ::
  "flate \<Rightarrow> byte list \<Rightarrow> gzipCompressor \<Rightarrow> heap \<Rightarrow> (error + slice) \<times> gzipCompressor \<times> heap" where
  "Compress fl msg g h =
     (case resetWriter g h of
        (Some e, g1, h1) \<Rightarrow> (Inl e, g1, h1)
      | (None, g1, h1) \<Rightarrow>
         (case gzipWriter g1 of None \<Rightarrow> (Inl NilPointerPanic, g1, h1)
          | Some pw \<Rightarrow>
             (case Writer_Write pw msg h1 of
                (Some e, h2) \<Rightarrow> (Inl e, g1, h2)
              | (None, h2) \<Rightarrow>
                 (case Writer_Close fl pw h2 of
                    (Some e, h3) \<Rightarrow> (Inl e, g1, h3)
                  | (None, h3) \<Rightarrow>
                     (case writeBuffer g1 of None \<Rightarrow> (Inl NilPointerPanic, g1, h3)
                      | Some pb \<Rightarrow>
                         (case Buffer_Bytes pb h3 of Inl e \<Rightarrow> (Inl e, g1, h3)
                          | Inr cmpBufferBytes \<Rightarrow>
                             (let (cmpBytes, h4) =
                                    make_bytes (slice_len cmpBufferBytes) (slice_len cmpBufferBytes) h3;
                                  h5 = copy_bytes cmpBytes 0 (slice_bytes h4 cmpBufferBytes) h4
                              in (Inr cmpBytes, g1, h5))))))))"

text \<open>
  \<^verbatim>\<open>func (g *gzipCompressor) Decompress(msg []byte) ([]byte, error)\<close>: reset the reader,
  \<^verbatim>\<open>io.ReadAll\<close>, close, then \<^verbatim>\<open>make\<close> a slice as long as the data and \<^verbatim>\<open>copy\<close> into it.
\<close>

definition Decompress ::
  "flate \<Rightarrow> byte list \<Rightarrow> gzipCompressor \<Rightarrow> heap \<Rightarrow> (error + slice) \<times> gzipCompressor \<times> heap" where
  "Decompress fl msg g h =
     (case resetReader msg g h of
        (Some e, g1, h1) \<Rightarrow> (Inl e, g1, h1)
      | (None, g1, h1) \<Rightarrow>
         (case gzipReader g1 of None \<Rightarrow> (Inl NilPointerPanic, g1, h1)
          | Some pz \<Rightarrow>
             (case io_ReadAll fl pz h1 of
                (Inl e, h2) \<Rightarrow> (Inl e, g1, h2)
              | (Inr data, h2) \<Rightarrow>
                 (case Reader_Close pz h2 of
                    Some e \<Rightarrow> (Inl e, g1, h2)
                  | None \<Rightarrow>
                     (let (decompData, h3) = make_bytes (sl_len data) (sl_len data) h2;
                          h4 = copy_bytes decompData 0 (slice_bytes h3 (Some data)) h3
                      in (Inr decompData, g1, h4))))))"

text \<open>A caller's sequence of calls on one instance.\<close>

datatype call = Call_Compress "byte list" | Call_Decompress "byte list"

fun run_calls :: "flate \<Rightarrow> call list \<Rightarrow> gzipCompressor \<Rightarrow> heap \<Rightarrow> gzipCompressor \<times> heap" where
  "run_calls fl [] g h = (g, h)"
| "run_calls fl (Call_Compress msg # cs) g h =
     (case Compress fl msg g h of (_, g', h') \<Rightarrow> run_calls fl cs g' h')"
| "run_calls fl (Call_Decompress msg # cs) g h =
     (case Decompress fl msg g h of (_, g', h') \<Rightarrow> run_calls fl cs g' h')"

subsection \<open>Well-formed instances\<close>

text \<open>
  What \<^verbatim>\<open>NewCompressor\<close> and the two operations maintain: the read side is never marked
  initialised, and once the write side is, its two pointers are live and the buffer's
  slice lies within an allocated array.
\<close>

definition buf_ok :: "heap \<Rightarrow> Buffer \<Rightarrow> bool" where
  "buf_ok h b =
     (case buf b of None \<Rightarrow> True
      | Some s \<Rightarrow> sl_arr s < nextAddr h \<and>
          (case arrays h (sl_arr s) of None \<Rightarrow> False | Some a \<Rightarrow> sl_len s \<le> length a))"

definition buffer_ok :: "heap \<Rightarrow> addr \<Rightarrow> bool" where
  "buffer_ok h pb = (case buffers h pb of None \<Rightarrow> False | Some b \<Rightarrow> buf_ok h b)"

definition buf_arr :: "heap \<Rightarrow> addr \<Rightarrow> addr option" where
  "buf_arr h pb = (case buffers h pb of None \<Rightarrow> None | Some b \<Rightarrow> map_option sl_arr (buf b))"

definition buf_contents :: "heap \<Rightarrow> addr \<Rightarrow> byte list" where
  "buf_contents h pb = (case buffers h pb of None \<Rightarrow> [] | Some b \<Rightarrow> slice_bytes h (buf b))"

text \<open>The backing array of the instance's reusable write buffer, if it has one.\<close>

definition wbuf_arr :: "gzipCompressor \<Rightarrow> heap \<Rightarrow> addr option" where
  "wbuf_arr g h = (case writeBuffer g of None \<Rightarrow> None | Some pb \<Rightarrow> buf_arr h pb)"

text \<open>The bytes the instance's reusable write buffer holds.\<close>

definition wbuf_contents :: "gzipCompressor \<Rightarrow> heap \<Rightarrow> byte list" where
  "wbuf_contents g h = (case writeBuffer g of None \<Rightarrow> [] | Some pb \<Rightarrow> buf_contents h pb)"

definition writer_bound :: "gzipCompressor \<Rightarrow> heap \<Rightarrow> bool" where
  "writer_bound g h =
     (case writeBuffer g of None \<Rightarrow> False
      | Some pb \<Rightarrow> buffer_ok h pb \<and>
          (case gzipWriter g of None \<Rightarrow> False | Some pw \<Rightarrow> writers h pw \<noteq> None))"

definition instance_ok :: "gzipCompressor \<Rightarrow> heap \<Rightarrow> bool" where
  "instance_ok g h = (\<not> readerInitialised g \<and> (writerInitialised g \<longrightarrow> writer_bound g h))"

text \<open>A slice the instance does not own: allocated, and not the write buffer's array.\<close>

definition detached :: "slice \<Rightarrow> gzipCompressor \<Rightarrow> heap \<Rightarrow> bool" where
  "detached s g h =
     (sl_arr s < nextAddr h \<and> (writerInitialised g \<longrightarrow> Some (sl_arr s) \<noteq> wbuf_arr g h))"

subsection \<open>The wire format and the assumptions on the DEFLATE coder\<close>

text \<open>What the writer puts on the wire for one message, and what the reader makes of a
  byte sequence.\<close>

definition gzip_trailer :: "byte list \<Rightarrow> byte list" where
  "gzip_trailer b = le_PutUint32 (crc32_Update 0 b) @ le_PutUint32 (of_nat (length b))"

definition gzip_encode :: "flate \<Rightarrow> byte list \<Rightarrow> byte list" where
  "gzip_encode fl b = gzip_header @ deflate fl b @ gzip_trailer b"

definition gunzip :: "flate \<Rightarrow> byte list \<Rightarrow> error + byte list" where
  "gunzip fl msg = (case readHeader msg of Inl e \<Rightarrow> Inl e | Inr rest \<Rightarrow> fst (read_members fl rest))"

text \<open>
  The decoder inverts the encoder on a stream followed by anything; and a decoding
  depends only on the bytes it consumed (the decoder reads its input front to back).
\<close>

definition flate_roundtrip :: "flate \<Rightarrow> bool" where
  "flate_roundtrip fl \<longleftrightarrow>
     (\<forall>b rest. inflate fl (deflate fl b @ rest) = Inr (b, length (deflate fl b)))"

definition flate_sequential :: "flate \<Rightarrow> bool" where
  "flate_sequential fl \<longleftrightarrow>
     (\<forall>xs d n. inflate fl xs = Inr (d, n) \<longrightarrow>
        n \<le> length xs \<and> (\<forall>ys. take n ys = take n xs \<longrightarrow> inflate fl ys = Inr (d, n)))"

subsection \<open>A DEFLATE coder that emits stored blocks only\<close>

text \<open>
  An instance of the parameter (RFC 1951, section 3.2.4): the encoder cuts its input into
  stored blocks of at most 65535 bytes, the decoder accepts stored blocks and nothing
  else. It shows that the assumptions above can be met and gives the examples a coder to
  run with.
\<close>

definition stored_block :: "bool \<Rightarrow> byte list \<Rightarrow> byte list" where
  "stored_block final d =
     (if final then 1 else 0) # le_PutUint16 (of_nat (length d)) @
       le_PutUint16 (NOT (of_nat (length d))) @ d"

function deflate_stored :: "byte list \<Rightarrow> byte list" where
  "deflate_stored b =
     (if length b \<le> 65535 then stored_block True b
      else stored_block False (take 65535 b) @ deflate_stored (drop 65535 b))"
  by pat_completeness auto
termination
  by (relation "measure length") auto

function inflate_stored :: "byte list \<Rightarrow> flate_error + (byte list \<times> nat)" where
  "inflate_stored xs =
     (case xs of [] \<Rightarrow> Inl UnexpectedEOF
      | hdr # ys \<Rightarrow>
         if hdr AND 6 \<noteq> 0 then Inl CorruptInput
         else if length ys < 4 then Inl UnexpectedEOF
         else
           (let n = unat (le_Uint16 ys) in
            if le_Uint16 (drop 2 ys) \<noteq> NOT (le_Uint16 ys) then Inl CorruptInput
            else if length ys < 4 + n then Inl UnexpectedEOF
            else if hdr AND 1 = 1 then Inr (take n (drop 4 ys), 5 + n)
            else
              (case inflate_stored (drop (4 + n) ys) of
                 Inl e \<Rightarrow> Inl e
               | Inr (d, k) \<Rightarrow> Inr (take n (drop 4 ys) @ d, 5 + n + k))))"
  by pat_completeness auto
termination
  by (relation "measure length") auto

declare deflate_stored.simps [simp del] inflate_stored.simps [simp del]

definition stored :: flate where
  "stored = \<lparr>deflate = deflate_stored, inflate = inflate_stored\<rparr>"


subsection \<open>Notions used in the proofs\<close>

text \<open>One or more writes to the buffer at \<open>pb\<close> that append \<open>p\<close>: what they change and what
  they leave alone.\<close>

definition buf_step :: "addr \<Rightarrow> byte list \<Rightarrow> heap \<Rightarrow> heap \<Rightarrow> bool" where
  "buf_step pb p h h' \<longleftrightarrow>
     buffer_ok h' pb \<and> buf_contents h' pb = buf_contents h pb @ p \<and>
     (buf_arr h' pb = buf_arr h pb \<or> (\<exists>a. buf_arr h' pb = Some a \<and> nextAddr h \<le> a)) \<and>
     (\<forall>q. q \<noteq> pb \<longrightarrow> buffers h' q = buffers h q) \<and>
     bytesReaders h' = bytesReaders h \<and> readers h' = readers h \<and>
     nextAddr h \<le> nextAddr h' \<and>
     (\<forall>a. a < nextAddr h \<longrightarrow> Some a \<noteq> buf_arr h pb \<longrightarrow> arrays h' a = arrays h a)"

text \<open>The Writer after the header and \<open>msg\<close> have been written.\<close>

definition written :: "addr \<Rightarrow> byte list \<Rightarrow> Writer" where
  "written pb msg = \<lparr>w_w = pb, w_compressor = Some msg, w_digest = crc32_Update 0 msg,
     w_size = of_nat (length msg), w_closed = False, w_wroteHeader = True, w_err = None\<rparr>"


subsection \<open>Example data\<close>

text \<open>The gzip file the stored-block coder produces for the one byte \<^verbatim>\<open>0x41\<close>: header,
  one final stored block, CRC-32 \<^verbatim>\<open>d3d99e8b\<close>, length 1.\<close>

definition gz_A :: "byte list" where
  "gz_A = [31, 139, 8, 0, 0, 0, 0, 0, 0, 255, 1, 1, 0, 254, 255, 65, 139, 158, 217, 211, 1, 0, 0, 0]"

text \<open>
  An instance as a completed \<^verbatim>\<open>Decompress\<close> of that file leaves it, with
  \<^verbatim>\<open>readerInitialised\<close> set by hand (the struct is package-private; no method sets the
  flag).
\<close>

definition bound_reader_state :: "gzipCompressor \<times> heap" where
  "bound_reader_state =
     (\<lparr>writerInitialised = False, readerInitialised = True, writeBuffer = None,
        gzipWriter = None, bytesReader = Some 0, gzipReader = Some 1\<rparr>,
      \<lparr>nextAddr = 2, arrays = Map.empty, buffers = Map.empty, writers = Map.empty,
        bytesReaders = [0 \<mapsto> \<lparr>br_s = gz_A, br_i = 24\<rparr>],
        readers = [1 \<mapsto> \<lparr>r_r = 0, r_decompressor = Some (Some EOF), r_err = Some EOF\<rparr>]\<rparr>)"

section \<open>Lemmas\<close>

subsection \<open>Little-endian words\<close>

lemma le_Uint32_PutUint32: "le_Uint32 (le_PutUint32 v) = v"
  unfolding le_PutUint32_def
  apply simp
  apply (rule bit_word_eqI)
  subgoal for n
    by (cases "n < 8"; cases "n < 16"; cases "n < 24") (auto simp: bit_simps)
  done

lemma le_Uint32_PutUint32_append [simp]: "le_Uint32 (le_PutUint32 v @ rest) = v"
  using le_Uint32_PutUint32 [of v] by (simp add: le_PutUint32_def)

lemma length_le_PutUint32 [simp]: "length (le_PutUint32 v) = 4"
  by (simp add: le_PutUint32_def)

lemma le_Uint32_inj:
  assumes "length xs = 4" "length ys = 4" "le_Uint32 xs = le_Uint32 ys"
  shows "xs = ys"
proof -
  have put: "\<And>b0 b1 b2 b3. le_PutUint32 (le_Uint32 [b0, b1, b2, b3]) = [b0, b1, b2, b3]"
    unfolding le_PutUint32_def
    apply simp
    apply (intro conjI; rule bit_word_eqI)
       apply (auto simp: bit_simps dest: bit_imp_le_length)
    done
  from assms(1) obtain a0 a1 a2 a3 where xs: "xs = [a0, a1, a2, a3]"
    by (auto simp: length_Suc_conv numeral_eq_Suc)
  from assms(2) obtain c0 c1 c2 c3 where ys: "ys = [c0, c1, c2, c3]"
    by (auto simp: length_Suc_conv numeral_eq_Suc)
  have "xs = le_PutUint32 (le_Uint32 xs)" unfolding xs by (rule put [symmetric])
  also have "\<dots> = le_PutUint32 (le_Uint32 ys)" using assms(3) by simp
  also have "\<dots> = ys" unfolding ys by (rule put)
  finally show ?thesis .
qed

lemma le_Uint16_PutUint16 [simp]: "le_Uint16 (le_PutUint16 v @ rest) = v"
  unfolding le_PutUint16_def
  apply simp
  apply (rule bit_word_eqI)
  subgoal for n
    by (cases "n < 8") (auto simp: bit_simps)
  done

lemma length_le_PutUint16 [simp]: "length (le_PutUint16 v) = 2"
  by (simp add: le_PutUint16_def)

subsection \<open>Writing: the buffer, the gzip Writer, Compress\<close>

lemmas buf_defs = buffer_ok_def buf_ok_def buf_arr_def buf_contents_def slice_bytes_def
  slice_len_def slice_cap_def

lemma Buffer_Write_step:
  assumes "buffer_ok h pb"
  shows "\<exists>h'. Buffer_Write pb p h = (None, h') \<and> buf_step pb p h h' \<and> writers h' = writers h"
proof -
  from assms obtain b where b: "buffers h pb = Some b" "buf_ok h b"
    by (auto simp: buffer_ok_def split: option.splits)
  show ?thesis
  proof (cases "buf b")
    case None
    show ?thesis
    proof (cases "p = []")
      case True
      with None b show ?thesis
        by (auto simp: Buffer_Write_def Buffer_grow_def buf_step_def buf_defs Let_def)
    next
      case False
      with None b show ?thesis
        by (auto simp: Buffer_Write_def Buffer_grow_def buf_step_def buf_defs Let_def
            make_bytes_def copy_bytes_def write_at_def smallBufferSize_def)
    qed
  next
    case (Some s)
    with b obtain a where a: "arrays h (sl_arr s) = Some a" "sl_len s \<le> length a"
      "sl_arr s < nextAddr h"
      by (auto simp: buf_ok_def split: option.splits)
    show ?thesis
    proof (cases "length p \<le> length a - sl_len s")
      case True
      with Some a b show ?thesis
        by (auto simp: Buffer_Write_def Buffer_grow_def buf_step_def buf_defs Let_def
            copy_bytes_def write_at_def)
    next
      case False
      with Some a b show ?thesis
        by (auto simp: Buffer_Write_def Buffer_grow_def buf_step_def buf_defs Let_def
            make_bytes_def copy_bytes_def write_at_def)
    qed
  qed
qed

lemma buf_step_trans:
  assumes "buf_step pb p h h'" "buf_step pb q h' h''"
  shows "buf_step pb (p @ q) h h''"
proof -
  from assms(1) have a: "buf_contents h' pb = buf_contents h pb @ p"
    "buf_arr h' pb = buf_arr h pb \<or> (\<exists>a. buf_arr h' pb = Some a \<and> nextAddr h \<le> a)"
    "\<forall>q. q \<noteq> pb \<longrightarrow> buffers h' q = buffers h q"
    "bytesReaders h' = bytesReaders h" "readers h' = readers h" "nextAddr h \<le> nextAddr h'"
    "\<forall>a. a < nextAddr h \<longrightarrow> Some a \<noteq> buf_arr h pb \<longrightarrow> arrays h' a = arrays h a"
    by (simp_all add: buf_step_def)
  from assms(2) have b: "buffer_ok h'' pb" "buf_contents h'' pb = buf_contents h' pb @ q"
    "buf_arr h'' pb = buf_arr h' pb \<or> (\<exists>a. buf_arr h'' pb = Some a \<and> nextAddr h' \<le> a)"
    "\<forall>q. q \<noteq> pb \<longrightarrow> buffers h'' q = buffers h' q"
    "bytesReaders h'' = bytesReaders h'" "readers h'' = readers h'" "nextAddr h' \<le> nextAddr h''"
    "\<forall>a. a < nextAddr h' \<longrightarrow> Some a \<noteq> buf_arr h' pb \<longrightarrow> arrays h'' a = arrays h' a"
    by (simp_all add: buf_step_def)
  have arr: "buf_arr h'' pb = buf_arr h pb \<or> (\<exists>a. buf_arr h'' pb = Some a \<and> nextAddr h \<le> a)"
    using a(2,6) b(3) by (auto intro: order_trans)
  have frame: "\<forall>x. x < nextAddr h \<longrightarrow> Some x \<noteq> buf_arr h pb \<longrightarrow> arrays h'' x = arrays h x"
  proof (intro allI impI)
    fix x assume x: "x < nextAddr h" "Some x \<noteq> buf_arr h pb"
    from x(1) a(6) have "x < nextAddr h'" by simp
    moreover have "Some x \<noteq> buf_arr h' pb" using a(2) x by auto
    ultimately have "arrays h'' x = arrays h' x" using b(8) by blast
    with a(7) x show "arrays h'' x = arrays h x" by simp
  qed
  show ?thesis
    unfolding buf_step_def using a b arr frame by simp
qed

lemma writers_update_buf [simp]:
  "buffer_ok (h\<lparr>writers := ws\<rparr>) pb = buffer_ok h pb"
  "buf_contents (h\<lparr>writers := ws\<rparr>) pb = buf_contents h pb"
  "buf_arr (h\<lparr>writers := ws\<rparr>) pb = buf_arr h pb"
  by (auto simp: buf_defs split: option.splits)

lemma buf_step_writers:
  assumes "buf_step pb p h h'"
  shows "buf_step pb p h (h'\<lparr>writers := ws\<rparr>)"
  using assms unfolding buf_step_def by simp

lemma buf_step_writers_pre:
  assumes "buf_step pb p h h'"
  shows "buf_step pb p (h\<lparr>writers := ws\<rparr>) h'"
  using assms unfolding buf_step_def by simp

lemma Writer_Write_step:
  assumes "buffer_ok h pb" "writers h pw = Some (Writer_init pb c)" "c = None \<or> c = Some []"
  shows "\<exists>h'. Writer_Write pw msg h = (None, h') \<and> buf_step pb gzip_header h h' \<and>
           writers h' = (writers h)(pw \<mapsto> written pb msg)"
proof -
  from Buffer_Write_step [OF assms(1), of gzip_header] obtain h1 where
    h1: "Buffer_Write pb gzip_header h = (None, h1)" "buf_step pb gzip_header h h1"
      "writers h1 = writers h" by blast
  show ?thesis
    using assms(2,3) h1 buf_step_writers [OF h1(2)]
    by (auto simp: Writer_Write_def Writer_init_def written_def Let_def)
qed

lemma Writer_Close_step:
  assumes "buffer_ok h pb" "writers h pw = Some (written pb msg)"
  shows "\<exists>h'. Writer_Close fl pw h = (None, h') \<and>
           buf_step pb (deflate fl msg @ le_PutUint32 (crc32_Update 0 msg) @
             le_PutUint32 (of_nat (length msg))) h h' \<and>
           writers h' pw \<noteq> None"
proof -
  let ?z = "written pb msg"
  let ?h0 = "h\<lparr>writers := (writers h)(pw \<mapsto> ?z\<lparr>w_closed := True\<rparr>)\<rparr>"
  have ok0: "buffer_ok ?h0 pb" using assms(1) by simp
  from Buffer_Write_step [OF ok0, of "deflate fl msg"] obtain h2 where
    h2: "Buffer_Write pb (deflate fl msg) ?h0 = (None, h2)" "buf_step pb (deflate fl msg) ?h0 h2"
      "writers h2 = writers ?h0" by blast
  have ok2: "buffer_ok h2 pb" using h2(2) by (simp add: buf_step_def)
  let ?tr = "le_PutUint32 (crc32_Update 0 msg) @ le_PutUint32 (of_nat (length msg))"
  from Buffer_Write_step [OF ok2, of ?tr] obtain h3 where
    h3: "Buffer_Write pb ?tr h2 = (None, h3)" "buf_step pb ?tr h2 h3"
      "writers h3 = writers h2" by blast
  have st: "buf_step pb (deflate fl msg @ ?tr) h h3"
    using buf_step_trans [OF buf_step_writers_pre [OF h2(2), of "writers h"] h3(2)]
    by simp
  show ?thesis
    using assms(2) h2(1,3) h3(1,3) buf_step_writers [OF st]
    by (auto simp: Writer_Close_def written_def Let_def)
qed


lemma resetWriter_step:
  assumes "writerInitialised g \<longrightarrow> writer_bound g h"
  shows "\<exists>g' h' pb pw c. resetWriter g h = (None, g', h') \<and> writeBuffer g' = Some pb \<and>
     gzipWriter g' = Some pw \<and> writerInitialised g' \<and> buffer_ok h' pb \<and>
     buf_contents h' pb = [] \<and> writers h' pw = Some (Writer_init pb c) \<and>
     (c = None \<or> c = Some []) \<and>
     readerInitialised g' = readerInitialised g \<and> bytesReader g' = bytesReader g \<and>
     gzipReader g' = gzipReader g \<and>
     arrays h' = arrays h \<and> bytesReaders h' = bytesReaders h \<and> readers h' = readers h \<and>
     nextAddr h \<le> nextAddr h' \<and>
     (if writerInitialised g then g' = g \<and> buf_arr h' pb = wbuf_arr g h
      else buf_arr h' pb = None \<and> pb = nextAddr h \<and> pw = Suc (nextAddr h))"
proof (cases "writerInitialised g")
  case False
  then show ?thesis
    by (auto simp: resetWriter_def new_Buffer_def gzip_NewWriter_def buf_defs
        intro: exI [of _ None])
next
  case True
  with assms obtain pb pw b z where
    "writeBuffer g = Some pb" "gzipWriter g = Some pw" "buffers h pb = Some b" "buf_ok h b"
    "writers h pw = Some z"
    by (auto simp: writer_bound_def buffer_ok_def split: option.splits)
  with True show ?thesis
    by (cases "buf b"; cases "w_compressor z")
      (auto simp: resetWriter_def Buffer_Reset_def Writer_Reset_def buf_defs wbuf_arr_def
        split: option.splits)
qed

lemma Compress_step:
  assumes "instance_ok g h"
  obtains r g' h' where
    "Compress fl msg g h = (Inr r, g', h')"
    "slice_bytes h' (Some r) = gzip_encode fl msg"
    "instance_ok g' h'" "writerInitialised g'"
    "nextAddr h \<le> sl_arr r" "sl_arr r < nextAddr h'" "Some (sl_arr r) \<noteq> wbuf_arr g' h'"
    "\<forall>a<nextAddr h. (writerInitialised g \<longrightarrow> Some a \<noteq> wbuf_arr g h) \<longrightarrow> arrays h' a = arrays h a"
    "(writerInitialised g \<and> wbuf_arr g' h' = wbuf_arr g h) \<or>
       (\<exists>a. wbuf_arr g' h' = Some a \<and> nextAddr h \<le> a)"
    "nextAddr h \<le> nextAddr h'"
    "bytesReader g' = bytesReader g" "gzipReader g' = gzipReader g"
    "bytesReaders h' = bytesReaders h" "readers h' = readers h"
    "writerInitialised g \<longrightarrow> g' = g"
    "\<not> writerInitialised g \<longrightarrow>
       writeBuffer g' = Some (nextAddr h) \<and> gzipWriter g' = Some (Suc (nextAddr h))"
    "wbuf_contents g' h' = gzip_encode fl msg"
proof -
  from assms have wb: "writerInitialised g \<longrightarrow> writer_bound g h" and ri: "\<not> readerInitialised g"
    by (simp_all add: instance_ok_def)
  from resetWriter_step [OF wb] obtain g1 h1 pb pw c where
    rw: "resetWriter g h = (None, g1, h1)" and
    g1: "writeBuffer g1 = Some pb" "gzipWriter g1 = Some pw" "writerInitialised g1"
      "readerInitialised g1 = readerInitialised g" "bytesReader g1 = bytesReader g"
      "gzipReader g1 = gzipReader g" and
    h1: "buffer_ok h1 pb" "buf_contents h1 pb = []" "writers h1 pw = Some (Writer_init pb c)"
      "c = None \<or> c = Some []" "arrays h1 = arrays h" "bytesReaders h1 = bytesReaders h"
      "readers h1 = readers h" "nextAddr h \<le> nextAddr h1" and
    alt: "if writerInitialised g then g1 = g \<and> buf_arr h1 pb = wbuf_arr g h
          else buf_arr h1 pb = None \<and> pb = nextAddr h \<and> pw = Suc (nextAddr h)"
    by blast
  from Writer_Write_step [OF h1(1) h1(3) h1(4), of msg] obtain h2 where
    h2: "Writer_Write pw msg h1 = (None, h2)" "buf_step pb gzip_header h1 h2"
      "writers h2 = (writers h1)(pw \<mapsto> written pb msg)" by blast
  have ok2: "buffer_ok h2 pb" using h2(2) by (simp add: buf_step_def)
  have w2: "writers h2 pw = Some (written pb msg)" using h2(3) by simp
  let ?body = "deflate fl msg @ le_PutUint32 (crc32_Update 0 msg) @ le_PutUint32 (of_nat (length msg))"
  from Writer_Close_step [OF ok2 w2, of fl] obtain h3 where
    h3: "Writer_Close fl pw h2 = (None, h3)" "buf_step pb ?body h2 h3" "writers h3 pw \<noteq> None"
    by blast
  have st: "buf_step pb (gzip_header @ ?body) h1 h3"
    using buf_step_trans [OF h2(2) h3(2)] .
  then have ok3: "buffer_ok h3 pb" and c3: "buf_contents h3 pb = gzip_encode fl msg"
    and n3: "nextAddr h1 \<le> nextAddr h3"
    and a3: "buf_arr h3 pb = buf_arr h1 pb \<or> (\<exists>a. buf_arr h3 pb = Some a \<and> nextAddr h1 \<le> a)"
    and f3: "\<forall>a. a < nextAddr h1 \<longrightarrow> Some a \<noteq> buf_arr h1 pb \<longrightarrow> arrays h3 a = arrays h1 a"
    and r3: "bytesReaders h3 = bytesReaders h1" "readers h3 = readers h1"
    using h1(2) by (simp_all add: buf_step_def gzip_encode_def gzip_trailer_def)
  from ok3 obtain b3 where b3: "buffers h3 pb = Some b3" "buf_ok h3 b3"
    by (auto simp: buffer_ok_def split: option.splits)
  define n where "n = slice_len (buf b3)"
  define r where "r = \<lparr>sl_arr = nextAddr h3, sl_len = n\<rparr>"
  define h5 where "h5 = h3\<lparr>nextAddr := Suc (nextAddr h3),
     arrays := (arrays h3)(nextAddr h3 \<mapsto> write_at 0 (take n (slice_bytes h3 (buf b3))) (replicate n 0))\<rparr>"
  have sb: "slice_bytes (h3\<lparr>nextAddr := Suc (nextAddr h3),
       arrays := (arrays h3)(nextAddr h3 \<mapsto> replicate n 0)\<rparr>) (buf b3) = slice_bytes h3 (buf b3)"
    using b3(2) by (auto simp: buf_defs split: option.splits)
  have C: "Compress fl msg g h = (Inr r, g1, h5)"
    using rw g1 h2(1) h3(1) b3(1) sb
    by (simp add: Compress_def Buffer_Bytes_def make_bytes_def copy_bytes_def Let_def
        r_def h5_def n_def)
  have len: "length (slice_bytes h3 (buf b3)) = n"
    using b3(2) by (auto simp: buf_defs n_def split: option.splits)
  have bytes: "slice_bytes h5 (Some r) = gzip_encode fl msg"
    using c3 b3(1) len by (simp add: slice_bytes_def r_def h5_def write_at_def buf_contents_def)
  have ok5: "buffer_ok h5 pb" and arr5: "buf_arr h5 pb = buf_arr h3 pb"
    and lt3: "Some (nextAddr h3) \<noteq> buf_arr h3 pb"
    and c5: "buf_contents h5 pb = buf_contents h3 pb"
    using b3 by (auto simp: buf_defs h5_def split: option.splits)
  have inst: "instance_ok g1 h5"
    using ri g1 ok5 h3(3) by (simp add: instance_ok_def writer_bound_def h5_def)
  have fresh: "Some (sl_arr r) \<noteq> wbuf_arr g1 h5"
    using g1(1) arr5 lt3 by (auto simp: wbuf_arr_def r_def)
  have frame: "\<forall>a<nextAddr h. (writerInitialised g \<longrightarrow> Some a \<noteq> wbuf_arr g h) \<longrightarrow>
      arrays h5 a = arrays h a"
  proof (intro allI impI)
    fix a assume a: "a < nextAddr h" "writerInitialised g \<longrightarrow> Some a \<noteq> wbuf_arr g h"
    have "Some a \<noteq> buf_arr h1 pb" using alt a by (auto split: if_splits)
    moreover have "a < nextAddr h1" using a(1) h1(8) by simp
    ultimately have "arrays h3 a = arrays h a" using f3 h1(5) by simp
    moreover have "a \<noteq> nextAddr h3" using \<open>a < nextAddr h1\<close> n3 by simp
    ultimately show "arrays h5 a = arrays h a" by (simp add: h5_def)
  qed
  have warr: "(writerInitialised g \<and> wbuf_arr g1 h5 = wbuf_arr g h) \<or>
       (\<exists>a. wbuf_arr g1 h5 = Some a \<and> nextAddr h \<le> a)"
  proof (cases "buf_arr h3 pb = buf_arr h1 pb")
    case True
    show ?thesis
    proof (cases "writerInitialised g")
      case True
      with \<open>buf_arr h3 pb = buf_arr h1 pb\<close> alt g1(1) arr5 show ?thesis
        by (simp add: wbuf_arr_def)
    next
      case False
      with alt True have "buf_arr h3 pb = None" by metis
      moreover have "buf_contents h3 pb \<noteq> []" using c3 by (simp add: gzip_encode_def gzip_header_def)
      ultimately show ?thesis using b3(1) by (auto simp: buf_defs split: option.splits)
    qed
  next
    case False
    with a3 obtain a where "buf_arr h3 pb = Some a" "nextAddr h1 \<le> a" by blast
    with h1(8) g1(1) arr5 show ?thesis by (auto simp: wbuf_arr_def)
  qed
  show ?thesis
  proof (rule that [OF C bytes inst g1(3) _ _ fresh frame warr])
    show "nextAddr h \<le> sl_arr r" using h1(8) n3 by (simp add: r_def)
    show "sl_arr r < nextAddr h5" by (simp add: r_def h5_def)
    show "nextAddr h \<le> nextAddr h5" using h1(8) n3 by (simp add: h5_def)
    show "bytesReader g1 = bytesReader g" "gzipReader g1 = gzipReader g" using g1 by simp_all
    show "bytesReaders h5 = bytesReaders h" "readers h5 = readers h"
      using r3 h1 by (simp_all add: h5_def)
    show "writerInitialised g \<longrightarrow> g1 = g" using alt by simp
    show "\<not> writerInitialised g \<longrightarrow>
       writeBuffer g1 = Some (nextAddr h) \<and> gzipWriter g1 = Some (Suc (nextAddr h))"
      using alt g1 by simp
    show "wbuf_contents g1 h5 = gzip_encode fl msg"
      using g1(1) c5 c3 by (simp add: wbuf_contents_def)
  qed
qed

subsection \<open>Reading: the header, the members, Decompress\<close>

lemma readHeader_drop:
  assumes "readHeader xs = Inr zs"
  shows "drop (length xs - length zs) xs = zs"
  using readHeader_suffix [OF assms] by auto

lemma readHeader_gzip_header: "readHeader (gzip_header @ rest) = Inr rest"
  by (simp add: readHeader_def io_ReadFull_def gzip_header_def header_field_def)

lemma readHeader_EOF_iff: "readHeader xs = Inl EOF \<longleftrightarrow> xs = []"
proof
  assume "xs = []" then show "readHeader xs = Inl EOF"
    by (simp add: readHeader_def io_ReadFull_def)
next
  assume a: "readHeader xs = Inl EOF"
  have nE: "\<And>p rd st. header_field p rd st = Inl EOF \<Longrightarrow>
     (\<And>d ys. rd d ys \<noteq> Inl EOF) \<Longrightarrow> st = Inl EOF"
    by (auto simp: header_field_def split: sum.splits if_splits)
  have r1: "\<And>d ys. readExtraField d ys \<noteq> Inl EOF"
    by (auto simp: readExtraField_def noEOF_def split: sum.splits)
  have r2: "\<And>d ys. readStringField d ys \<noteq> Inl EOF"
    by (auto simp: readStringField_def noEOF_def split: sum.splits)
  have r3: "\<And>d ys. readHdrCrc d ys \<noteq> Inl EOF"
    by (auto simp: readHdrCrc_def noEOF_def split: sum.splits)
  show "xs = []"
  proof (rule ccontr)
    assume "xs \<noteq> []"
    then have "io_ReadFull 10 xs \<noteq> Inl EOF" by (simp add: io_ReadFull_def)
    with a obtain hb xs1 where rf: "io_ReadFull 10 xs = Inr (hb, xs1)"
      by (cases "io_ReadFull 10 xs") (auto simp: readHeader_def)
    define flg where "flg = hb ! 3"
    define st1 where "st1 = header_field (flg AND 4 \<noteq> 0) readExtraField (Inr (crc32_Update 0 hb, xs1))"
    define st2 where "st2 = header_field (flg AND 8 \<noteq> 0) readStringField st1"
    define st3 where "st3 = header_field (flg AND 16 \<noteq> 0) readStringField st2"
    define st4 where "st4 = header_field (flg AND 2 \<noteq> 0) readHdrCrc st3"
    from a rf have "st4 = Inl EOF"
      by (auto simp: readHeader_def Let_def st4_def st3_def st2_def st1_def flg_def
        split: sum.splits if_splits)
    then have "st3 = Inl EOF" unfolding st4_def using nE r3 by blast
    then have "st2 = Inl EOF" unfolding st3_def using nE r2 by blast
    then have "st1 = Inl EOF" unfolding st2_def using nE r2 by blast
    then have "Inr (crc32_Update 0 hb, xs1) = (Inl EOF :: error + (uint32 \<times> byte list))"
      unfolding st1_def using nE r1 by blast
    then show False by simp
  qed
qed

lemma read_members_ferr:
  "read_members fl xs = (Inr d, fe) \<Longrightarrow> fe = Some EOF"
proof (induction fl xs arbitrary: d fe rule: read_members.induct)
  case (1 fl xs)
  show ?case
    using "1.prems"
    apply (subst (asm) read_members.simps)
    apply (auto split: sum.splits prod.splits if_splits dest: "1.IH")
    done
qed

lemmas Decompress_defs = Decompress_def resetReader_def bytes_NewReader_def gzip_NewReader_def
  Reader_Reset_def gunzip_def io_ReadAll_def Reader_Close_def make_bytes_def
  copy_bytes_def slice_bytes_def write_at_def Let_def

lemma Decompress_step:
  assumes "\<not> readerInitialised g"
  obtains res g' h' where
    "Decompress fl msg g h = (res, g', h')"
    "case res of Inl e \<Rightarrow> gunzip fl msg = Inl e
     | Inr s \<Rightarrow> gunzip fl msg = Inr (slice_bytes h' (Some s)) \<and> nextAddr h \<le> sl_arr s \<and>
         sl_arr s < nextAddr h' \<and> gzipReader g' = Some (Suc (nextAddr h)) \<and>
         nextAddr h' = nextAddr h + 4"
    "g' = g\<lparr>bytesReader := Some (nextAddr h), gzipReader := gzipReader g'\<rparr>"
    "buffers h' = buffers h" "writers h' = writers h"
    "\<forall>a<nextAddr h. arrays h' a = arrays h a" "nextAddr h \<le> nextAddr h'"
proof -
  obtain res g' h' where D: "Decompress fl msg g h = (res, g', h')"
    by (cases "Decompress fl msg g h")
  have "(case res of Inl e \<Rightarrow> gunzip fl msg = Inl e
     | Inr s \<Rightarrow> gunzip fl msg = Inr (slice_bytes h' (Some s)) \<and> nextAddr h \<le> sl_arr s \<and>
         sl_arr s < nextAddr h' \<and> gzipReader g' = Some (Suc (nextAddr h)) \<and>
         nextAddr h' = nextAddr h + 4) \<and>
    g' = g\<lparr>bytesReader := Some (nextAddr h), gzipReader := gzipReader g'\<rparr> \<and>
    buffers h' = buffers h \<and> writers h' = writers h \<and>
    (\<forall>a<nextAddr h. arrays h' a = arrays h a) \<and> nextAddr h \<le> nextAddr h'"
  proof (cases "readHeader msg")
    case (Inl e)
    with assms D show ?thesis
      by (auto simp: Decompress_defs)
  next
    case (Inr rest)
    note hd = this
    have dr: "drop (length msg - length rest) msg = rest"
      using readHeader_drop [OF hd] .
    obtain out fe where rm: "read_members fl rest = (out, fe)" by (cases "read_members fl rest")
    show ?thesis
    proof (cases out)
      case (Inl e)
      with assms hd dr rm D show ?thesis
        by (auto simp: Decompress_defs)
    next
      case (Inr d)
      with rm have fe: "fe = Some EOF" by (auto dest: read_members_ferr)
      with assms hd dr rm Inr D show ?thesis
        by (auto simp: Decompress_defs)
    qed
  qed
  with D show ?thesis by (intro that [of res g' h']) simp_all
qed

subsection \<open>The wire format\<close>

lemma length_gzip_trailer [simp]: "length (gzip_trailer b) = 8"
  by (simp add: gzip_trailer_def)

lemmas gzip_encode_alt = gzip_encode_def

lemma length_gzip_header [simp]: "length gzip_header = 10"
  by (simp add: gzip_header_def)

lemma length_gzip_encode: "length (gzip_encode fl b) = 18 + length (deflate fl b)"
  by (simp add: gzip_encode_alt gzip_header_def)

lemma readHeader_Nil: "readHeader [] = Inl EOF"
  by (simp add: readHeader_EOF_iff)

lemma read_members_body:
  assumes "inflate fl (body @ tr) = Inr (b, length body)" "length tr = 8"
  shows "read_members fl (body @ tr) =
    (if le_Uint32 tr = crc32_Update 0 b \<and> le_Uint32 (drop 4 tr) = of_nat (length b)
     then (Inr b, Some EOF) else (Inl ErrChecksum, Some EOF))"
  using assms
  by (subst read_members.simps) (simp add: io_ReadFull_def readHeader_Nil)

lemma gunzip_gzip_encode:
  assumes "flate_roundtrip fl"
  shows "gunzip fl (gzip_encode fl b) = Inr b"
proof -
  have "inflate fl (deflate fl b @ gzip_trailer b) = Inr (b, length (deflate fl b))"
    using assms by (simp add: flate_roundtrip_def)
  from read_members_body [OF this] show ?thesis
    by (simp add: gunzip_def gzip_encode_alt readHeader_gzip_header)
      (simp add: gzip_trailer_def le_Uint32_PutUint32)
qed

lemma gunzip_bad_trailer:
  assumes "flate_roundtrip fl" "length tr = 8" "tr \<noteq> gzip_trailer b"
  shows "gunzip fl (gzip_header @ deflate fl b @ tr) = Inl ErrChecksum"
proof -
  have inf: "inflate fl (deflate fl b @ tr) = Inr (b, length (deflate fl b))"
    using assms(1) by (simp add: flate_roundtrip_def)
  have "\<not> (le_Uint32 tr = crc32_Update 0 b \<and> le_Uint32 (drop 4 tr) = of_nat (length b))"
  proof
    assume a: "le_Uint32 tr = crc32_Update 0 b \<and> le_Uint32 (drop 4 tr) = of_nat (length b)"
    have t1: "le_Uint32 (take 4 tr) = le_Uint32 tr"
      using assms(2) by (cases tr rule: le_Uint32.cases) auto
    have "take 4 tr = le_PutUint32 (crc32_Update 0 b)"
      by (rule le_Uint32_inj) (use assms(2) a t1 le_Uint32_PutUint32 in auto)
    moreover have "drop 4 tr = le_PutUint32 (of_nat (length b))"
      by (rule le_Uint32_inj) (use assms(2) a le_Uint32_PutUint32 in auto)
    ultimately have "tr = gzip_trailer b"
      unfolding gzip_trailer_def by (metis append_take_drop_id)
    with assms(3) show False by simp
  qed
  with read_members_body [OF inf assms(2)] show ?thesis
    by (simp add: gunzip_def readHeader_gzip_header)
qed

lemma inflate_truncated:
  assumes "flate_roundtrip fl" "flate_sequential fl" "k < length (deflate fl b)"
  shows "\<exists>e. inflate fl (take k (deflate fl b)) = Inl e"
proof (cases "inflate fl (take k (deflate fl b))")
  case (Inl e)
  then show ?thesis by blast
next
  case (Inr r)
  obtain d n where r: "r = (d, n)" by (cases r)
  with Inr assms(2) have n: "n \<le> length (take k (deflate fl b))"
    and seq: "\<forall>ys. take n ys = take n (take k (deflate fl b)) \<longrightarrow> inflate fl ys = Inr (d, n)"
    unfolding flate_sequential_def by blast+
  from n have "n \<le> k" by simp
  then have "take n (deflate fl b) = take n (take k (deflate fl b))"
    by (simp add: min_absorb1)
  with seq have "inflate fl (deflate fl b) = Inr (d, n)" by blast
  moreover have "inflate fl (deflate fl b) = Inr (b, length (deflate fl b))"
    using assms(1) unfolding flate_roundtrip_def by (metis append_Nil2)
  ultimately have "n = length (deflate fl b)" by auto
  with n assms(3) show ?thesis by simp
qed

lemma gunzip_truncated:
  assumes "flate_roundtrip fl" "flate_sequential fl" "n < length (gzip_encode fl b)"
  shows "\<exists>e. gunzip fl (take n (gzip_encode fl b)) = Inl e"
proof -
  consider "n < 10" | "10 \<le> n" "n - 10 < length (deflate fl b)"
    | "10 \<le> n" "length (deflate fl b) \<le> n - 10" by linarith
  then show ?thesis
  proof cases
    case 1
    then show ?thesis
      by (auto simp: gunzip_def readHeader_def io_ReadFull_def gzip_encode_alt gzip_header_def)
  next
    case 2
    then have tk: "take n (gzip_encode fl b) = gzip_header @ take (n - 10) (deflate fl b)"
      by (simp add: gzip_encode_alt)
    from inflate_truncated [OF assms(1,2) 2(2)] obtain e where
      "inflate fl (take (n - 10) (deflate fl b)) = Inl e" by blast
    then show ?thesis
      unfolding tk gunzip_def readHeader_gzip_header
      by (subst read_members.simps) simp
  next
    case 3
    define j where "j = n - 10 - length (deflate fl b)"
    from 3 assms(3) have j: "j < 8" by (simp add: j_def length_gzip_encode)
    from 3 have tk: "take n (gzip_encode fl b) = gzip_header @ deflate fl b @ take j (gzip_trailer b)"
      by (simp add: gzip_encode_alt j_def)
    have "inflate fl (deflate fl b @ take j (gzip_trailer b)) = Inr (b, length (deflate fl b))"
      using assms(1) by (simp add: flate_roundtrip_def)
    then show ?thesis
      unfolding tk gunzip_def readHeader_gzip_header using j
      by (subst read_members.simps) (simp add: io_ReadFull_def)
  qed
qed

lemma gunzip_bad_magic:
  assumes "take 3 msg \<noteq> [0x1f, 0x8b, 8]"
  shows "\<exists>e. gunzip fl msg = Inl e"
proof (cases "10 \<le> length msg")
  case False
  then show ?thesis by (simp add: gunzip_def readHeader_def io_ReadFull_def)
next
  case True
  then obtain a b c rest where "msg = a # b # c # rest"
    by (cases msg rule: le_Uint32.cases) auto
  with True assms show ?thesis
    by (auto simp: gunzip_def readHeader_def io_ReadFull_def)
qed

subsection \<open>The stored-block coder meets the assumptions\<close>

lemma length_stored_block [simp]: "length (stored_block f d) = 5 + length d"
  by (simp add: stored_block_def)

lemma inflate_stored_Cons5:
  "inflate_stored (hdr # a # b # c # e # zs) =
    (let m = unat (le_Uint16 [a, b]) in
     if hdr AND 6 \<noteq> 0 then Inl CorruptInput
     else if le_Uint16 [c, e] \<noteq> NOT (le_Uint16 [a, b]) then Inl CorruptInput
     else if length zs < m then Inl UnexpectedEOF
     else if hdr AND 1 = 1 then Inr (take m zs, 5 + m)
     else (case inflate_stored (drop m zs) of Inl x \<Rightarrow> Inl x
           | Inr (d, k) \<Rightarrow> Inr (take m zs @ d, 5 + m + k)))"
  by (subst inflate_stored.simps) (auto simp: Let_def eval_nat_numeral split: sum.splits)

lemma inflate_stored_short:
  "length xs < 5 \<Longrightarrow> \<exists>e. inflate_stored xs = Inl e"
  by (subst inflate_stored.simps) (auto split: list.splits)

lemma inflate_stored_block:
  assumes "length d \<le> 65535"
  shows "inflate_stored (stored_block f d @ rest) =
    (if f then Inr (d, 5 + length d)
     else (case inflate_stored rest of Inl e \<Rightarrow> Inl e
           | Inr (d', k) \<Rightarrow> Inr (d @ d', 5 + length d + k)))"
proof -
  define v :: "16 word" where "v = word_of_nat (length d)"
  have n: "unat v = length d"
    using assms by (simp add: unat_of_nat v_def)
  obtain a b where ab: "le_PutUint16 v = [a, b]" by (simp add: le_PutUint16_def)
  obtain c e where ce: "le_PutUint16 (NOT v) = [c, e]" by (simp add: le_PutUint16_def)
  have "le_Uint16 [a, b] = v" "le_Uint16 [c, e] = NOT v"
    using le_Uint16_PutUint16 [of v "[]"] le_Uint16_PutUint16 [of "NOT v" "[]"]
    by (simp_all only: ab ce append_Nil2)
  then show ?thesis
    unfolding stored_block_def v_def [symmetric] ab ce
    by (auto simp: inflate_stored_Cons5 n Let_def simp del: le_Uint16.simps split: sum.splits)
qed

lemma inflate_deflate_stored:
  "inflate_stored (deflate_stored b @ rest) = Inr (b, length (deflate_stored b))"
proof (induction b rule: deflate_stored.induct)
  case (1 b)
  show ?case
  proof (cases "length b \<le> 65535")
    case True
    then show ?thesis
      by (subst (1 2) deflate_stored.simps) (simp add: inflate_stored_block)
  next
    case False
    with "1.IH" have IH: "inflate_stored (deflate_stored (drop 65535 b) @ rest) =
        Inr (drop 65535 b, length (deflate_stored (drop 65535 b)))" by simp
    from False show ?thesis
      by (subst (1 2) deflate_stored.simps) (simp add: inflate_stored_block IH min_absorb2)
  qed
qed

lemma flate_roundtrip_stored: "flate_roundtrip stored"
  by (simp add: flate_roundtrip_def stored_def inflate_deflate_stored)

lemma inflate_stored_prefix:
  "inflate_stored xs = Inr (d, n) \<Longrightarrow>
     n \<le> length xs \<and> (\<forall>rest. inflate_stored (take n xs @ rest) = Inr (d, n))"
proof (induction xs arbitrary: d n rule: length_induct)
  case (1 xs)
  have "\<not> length xs < 5"
    using "1.prems" inflate_stored_short [of xs] by auto
  then obtain hdr a b c e zs where xs: "xs = hdr # a # b # c # e # zs"
    by (cases xs rule: le_Uint32.cases; simp) (metis list.exhaust list.size(3) not_less_zero)
  define m where "m = unat (le_Uint16 [a, b])"
  have tk5: "\<And>j. take (5 + j) xs = hdr # a # b # c # e # take j zs"
    by (simp add: xs eval_nat_numeral)
  note eq = inflate_stored_Cons5 [of hdr a b c e, unfolded Let_def, folded m_def]
  from "1.prems" have c1: "hdr AND 6 = 0"
    and c3: "le_Uint16 [c, e] = NOT (le_Uint16 [a, b])" and c4: "m \<le> length zs"
    unfolding xs eq by (auto split: if_splits)
  show ?case
  proof (cases "hdr AND 1 = 1")
    case True
    with "1.prems" c1 c3 c4 have r: "d = take m zs" "n = 5 + m"
      unfolding xs eq by (auto split: if_splits)
    have "\<And>rest. inflate_stored (take n xs @ rest) = Inr (d, n)"
      unfolding r tk5 using True c1 c3 c4 by (simp add: eq del: le_Uint16.simps)
    with r c4 show ?thesis by (simp add: xs)
  next
    case False
    with "1.prems" c1 c3 c4 obtain d' k where
      rec: "inflate_stored (drop m zs) = Inr (d', k)" and r: "d = take m zs @ d'" "n = 5 + m + k"
      unfolding xs eq by (auto split: if_splits sum.splits)
    have "length (drop m zs) < length xs" by (simp add: xs)
    with "1.IH" rec have k: "k \<le> length (drop m zs)"
      and pre: "\<And>rest. inflate_stored (take k (drop m zs) @ rest) = Inr (d', k)"
      by blast+
    have tk: "take (m + k) zs = take m zs @ take k (drop m zs)"
      by (simp add: take_add)
    have "\<And>rest. inflate_stored (take n xs @ rest) = Inr (d, n)"
      unfolding r add.assoc tk5 tk using False c1 c3 c4 pre
      by (simp add: eq min_absorb2 del: le_Uint16.simps)
    with r c4 k show ?thesis by (simp add: xs)
  qed
qed

lemma flate_sequential_stored: "flate_sequential stored"
  unfolding flate_sequential_def
proof (intro allI impI)
  fix xs d n
  assume "inflate stored xs = Inr (d, n)"
  then have i: "inflate_stored xs = Inr (d, n)" by (simp add: stored_def)
  from inflate_stored_prefix [OF i] have n: "n \<le> length xs"
    and pre: "\<And>rest. inflate_stored (take n xs @ rest) = Inr (d, n)" by blast+
  show "n \<le> length xs \<and> (\<forall>ys. take n ys = take n xs \<longrightarrow> inflate stored ys = Inr (d, n))"
  proof (intro conjI allI impI)
    show "n \<le> length xs" by (rule n)
  next
    fix ys assume t: "take n ys = take n xs"
    have "ys = take n ys @ drop n ys" by simp
    also have "\<dots> = take n xs @ drop n ys" using t by simp
    finally have "ys = take n xs @ drop n ys" .
    then have "inflate_stored ys = Inr (d, n)" using pre [of "drop n ys"] by simp
    then show "inflate stored ys = Inr (d, n)" by (simp add: stored_def)
  qed
qed

subsection \<open>Instances and what the operations keep\<close>

lemma instance_ok_NewCompressor: "instance_ok NewCompressor h"
  by (simp add: instance_ok_def NewCompressor_def)

lemma Decompress_keeps_writer:
  assumes "\<not> readerInitialised g" "Decompress fl msg g h = (res, g', h')"
  shows "writerInitialised g' = writerInitialised g" "\<not> readerInitialised g'"
    "writeBuffer g' = writeBuffer g" "gzipWriter g' = gzipWriter g"
    "wbuf_arr g' h' = wbuf_arr g h" "buffers h' = buffers h" "writers h' = writers h"
    "\<forall>a<nextAddr h. arrays h' a = arrays h a" "nextAddr h \<le> nextAddr h'"
proof -
  from Decompress_step [OF assms(1), of fl msg h] assms(2)
  have gg: "g' = g\<lparr>bytesReader := Some (nextAddr h), gzipReader := gzipReader g'\<rparr>"
    and hh: "buffers h' = buffers h" "writers h' = writers h"
      "\<forall>a<nextAddr h. arrays h' a = arrays h a" "nextAddr h \<le> nextAddr h'"
    by auto
  from gg have f: "writerInitialised g' = writerInitialised g"
    "readerInitialised g' = readerInitialised g"
    "writeBuffer g' = writeBuffer g" "gzipWriter g' = gzipWriter g"
    by (metis gzipCompressor.select_convs gzipCompressor.surjective gzipCompressor.update_convs)+
  show "writerInitialised g' = writerInitialised g" "\<not> readerInitialised g'"
    "writeBuffer g' = writeBuffer g" "gzipWriter g' = gzipWriter g"
    using f assms(1) by simp_all
  show "wbuf_arr g' h' = wbuf_arr g h"
    using f(3) hh(1) by (auto simp: wbuf_arr_def buf_arr_def split: option.splits)
  show "buffers h' = buffers h" "writers h' = writers h"
    "\<forall>a<nextAddr h. arrays h' a = arrays h a" "nextAddr h \<le> nextAddr h'"
    using hh by simp_all
qed

lemma buffer_ok_frame:
  assumes "buffer_ok h pb" "buffers h' = buffers h" "\<forall>a<nextAddr h. arrays h' a = arrays h a"
    "nextAddr h \<le> nextAddr h'"
  shows "buffer_ok h' pb"
  using assms by (auto simp: buffer_ok_def buf_ok_def split: option.splits)

lemma Decompress_instance_ok:
  assumes "instance_ok g h" "Decompress fl msg g h = (res, g', h')"
  shows "instance_ok g' h'"
proof -
  from assms(1) have ri: "\<not> readerInitialised g" by (simp add: instance_ok_def)
  note k = Decompress_keeps_writer [OF ri assms(2)]
  show ?thesis
    using assms(1) k buffer_ok_frame [OF _ k(6) k(8) k(9)]
    by (auto simp: instance_ok_def writer_bound_def split: option.splits)
qed

lemma Compress_instance_ok:
  assumes "instance_ok g h" "Compress fl msg g h = (res, g', h')"
  shows "instance_ok g' h'"
  using Compress_step [OF assms(1), of fl msg] assms(2) by (metis prod.inject)

lemma run_calls_instance_ok:
  "instance_ok g h \<Longrightarrow> run_calls fl cs g h = (g', h') \<Longrightarrow> instance_ok g' h'"
proof (induction cs arbitrary: g h)
  case Nil
  then show ?case by simp
next
  case (Cons c cs)
  show ?case
  proof (cases c)
    case (Call_Compress m)
    obtain r g1 h1 where s: "Compress fl m g h = (r, g1, h1)" by (cases "Compress fl m g h")
    with Cons.prems Call_Compress have "run_calls fl cs g1 h1 = (g', h')" by simp
    with Cons.IH Compress_instance_ok [OF Cons.prems(1) s] show ?thesis by blast
  next
    case (Call_Decompress m)
    obtain r g1 h1 where s: "Decompress fl m g h = (r, g1, h1)" by (cases "Decompress fl m g h")
    with Cons.prems Call_Decompress have "run_calls fl cs g1 h1 = (g', h')" by simp
    with Cons.IH Decompress_instance_ok [OF Cons.prems(1) s] show ?thesis by blast
  qed
qed

text \<open>A detached slice stays detached, with the same bytes, across either operation.\<close>

lemma Compress_detached:
  assumes "instance_ok g h" "detached s g h" "Compress fl msg g h = (res, g', h')"
  shows "detached s g' h' \<and> slice_bytes h' (Some s) = slice_bytes h (Some s)"
proof -
  from Compress_step [OF assms(1), of fl msg] assms(3)
  have fr: "\<forall>a<nextAddr h. (writerInitialised g \<longrightarrow> Some a \<noteq> wbuf_arr g h) \<longrightarrow> arrays h' a = arrays h a"
    and wa: "(writerInitialised g \<and> wbuf_arr g' h' = wbuf_arr g h) \<or>
       (\<exists>a. wbuf_arr g' h' = Some a \<and> nextAddr h \<le> a)"
    and nx: "nextAddr h \<le> nextAddr h'"
    by (metis prod.inject)+
  from assms(2) have lt: "sl_arr s < nextAddr h"
    and ne: "writerInitialised g \<longrightarrow> Some (sl_arr s) \<noteq> wbuf_arr g h"
    by (simp_all add: detached_def)
  from fr lt ne have "arrays h' (sl_arr s) = arrays h (sl_arr s)" by blast
  then have "slice_bytes h' (Some s) = slice_bytes h (Some s)" by (simp add: slice_bytes_def)
  moreover have "Some (sl_arr s) \<noteq> wbuf_arr g' h'" using wa lt ne by auto
  ultimately show ?thesis using lt nx by (simp add: detached_def)
qed

lemma Decompress_detached:
  assumes "instance_ok g h" "detached s g h" "Decompress fl msg g h = (res, g', h')"
  shows "detached s g' h' \<and> slice_bytes h' (Some s) = slice_bytes h (Some s)"
proof -
  from assms(1) have ri: "\<not> readerInitialised g" by (simp add: instance_ok_def)
  note k = Decompress_keeps_writer [OF ri assms(3)]
  from assms(2) have lt: "sl_arr s < nextAddr h"
    and ne: "writerInitialised g \<longrightarrow> Some (sl_arr s) \<noteq> wbuf_arr g h"
    by (simp_all add: detached_def)
  from k(8) lt have "arrays h' (sl_arr s) = arrays h (sl_arr s)" by blast
  then have "slice_bytes h' (Some s) = slice_bytes h (Some s)" by (simp add: slice_bytes_def)
  then show ?thesis using lt ne k(1,5,9) by (simp add: detached_def)
qed

lemma run_calls_detached:
  "instance_ok g h \<Longrightarrow> detached s g h \<Longrightarrow> run_calls fl cs g h = (g', h') \<Longrightarrow>
     slice_bytes h' (Some s) = slice_bytes h (Some s)"
proof (induction cs arbitrary: g h)
  case Nil
  then show ?case by simp
next
  case (Cons c cs)
  show ?case
  proof (cases c)
    case (Call_Compress m)
    obtain r g1 h1 where s: "Compress fl m g h = (r, g1, h1)" by (cases "Compress fl m g h")
    with Cons.prems Call_Compress have run: "run_calls fl cs g1 h1 = (g', h')" by simp
    from Compress_detached [OF Cons.prems(1,2) s] Compress_instance_ok [OF Cons.prems(1) s]
      Cons.IH [OF _ _ run] show ?thesis by simp
  next
    case (Call_Decompress m)
    obtain r g1 h1 where s: "Decompress fl m g h = (r, g1, h1)" by (cases "Decompress fl m g h")
    with Cons.prems Call_Decompress have run: "run_calls fl cs g1 h1 = (g', h')" by simp
    from Decompress_detached [OF Cons.prems(1,2) s] Decompress_instance_ok [OF Cons.prems(1) s]
      Cons.IH [OF _ _ run] show ?thesis by simp
  qed
qed

text \<open>The slice either operation returns is new and detached.\<close>

lemma Compress_result_detached:
  assumes "instance_ok g h" "Compress fl msg g h = (Inr c, g', h')"
  shows "nextAddr h \<le> sl_arr c \<and> Some (sl_arr c) \<noteq> wbuf_arr g' h' \<and> detached c g' h'"
  using Compress_step [OF assms(1), of fl msg] assms(2)
  by (simp add: detached_def) (metis Pair_inject sum.inject(2))

lemma Decompress_result_detached:
  assumes "instance_ok g h" "Decompress fl msg g h = (Inr c, g', h')"
  shows "nextAddr h \<le> sl_arr c \<and> detached c g' h'"
proof -
  from assms(1) have ri: "\<not> readerInitialised g" by (simp add: instance_ok_def)
  note k = Decompress_keeps_writer [OF ri assms(2)]
  from Decompress_step [OF ri, of fl msg h] assms(2)
  have c: "nextAddr h \<le> sl_arr c" "sl_arr c < nextAddr h'" by auto
  have "wbuf_arr g h \<noteq> Some (sl_arr c)" if "writerInitialised g"
  proof -
    from assms(1) that have "writer_bound g h" by (simp add: instance_ok_def)
    then have "\<forall>a. wbuf_arr g h = Some a \<longrightarrow> a < nextAddr h"
      by (auto simp: writer_bound_def wbuf_arr_def buf_arr_def buffer_ok_def buf_ok_def
          split: option.splits)
    with c(1) show ?thesis by auto
  qed
  then show ?thesis
    using c k(1,5) by (auto simp: detached_def)
qed

subsection \<open>The two operations, seen from outside\<close>

lemma Decompress_result:
  assumes "\<not> readerInitialised g" "Decompress fl msg g h = (res, g', h')"
  shows "case res of Inl e \<Rightarrow> gunzip fl msg = Inl e
        | Inr s \<Rightarrow> gunzip fl msg = Inr (slice_bytes h' (Some s)) \<and> nextAddr h \<le> sl_arr s \<and>
         sl_arr s < nextAddr h' \<and> gzipReader g' = Some (Suc (nextAddr h)) \<and>
         nextAddr h' = nextAddr h + 4"
proof (rule Decompress_step [OF assms(1), of fl msg h])
  fix res0 g0 h0
  assume "Decompress fl msg g h = (res0, g0, h0)"
    "case res0 of Inl e \<Rightarrow> gunzip fl msg = Inl e
     | Inr s \<Rightarrow> gunzip fl msg = Inr (slice_bytes h0 (Some s)) \<and> nextAddr h \<le> sl_arr s \<and>
         sl_arr s < nextAddr h0 \<and> gzipReader g0 = Some (Suc (nextAddr h)) \<and>
         nextAddr h0 = nextAddr h + 4"
  with assms(2) show ?thesis by (auto split: sum.splits)
qed

lemma Decompress_success:
  assumes "\<not> readerInitialised g" "gunzip fl msg = Inr b"
  shows "\<exists>d g' h'. Decompress fl msg g h = (Inr d, g', h') \<and> slice_bytes h' (Some d) = b"
proof -
  obtain res g' h' where D: "Decompress fl msg g h = (res, g', h')"
    by (cases "Decompress fl msg g h")
  from Decompress_result [OF assms(1) D] assms(2)
  obtain d where "res = Inr d" "slice_bytes h' (Some d) = b"
    by (cases res) auto
  with D show ?thesis by blast
qed

lemma Decompress_failure:
  assumes "\<not> readerInitialised g" "gunzip fl msg = Inl e"
  shows "fst (Decompress fl msg g h) = Inl e"
proof -
  obtain res g' h' where D: "Decompress fl msg g h = (res, g', h')"
    by (cases "Decompress fl msg g h")
  from Decompress_result [OF assms(1) D] assms(2) have "res = Inl e" by (cases res) auto
  with D show ?thesis by simp
qed

lemma Compress_result:
  assumes "instance_ok g h"
  shows "\<exists>c g' h'. Compress fl msg g h = (Inr c, g', h') \<and>
     slice_bytes h' (Some c) = gzip_encode fl msg \<and> instance_ok g' h' \<and>
     wbuf_contents g' h' = gzip_encode fl msg"
proof (rule Compress_step [OF assms, of fl msg])
  fix r g' h'
  assume "Compress fl msg g h = (Inr r, g', h')" "slice_bytes h' (Some r) = gzip_encode fl msg"
    "instance_ok g' h'" "wbuf_contents g' h' = gzip_encode fl msg"
  then show ?thesis by blast
qed

lemma Compress_then_Decompress:
  assumes "instance_ok g h" "flate_roundtrip fl"
  shows "\<exists>c g1 h1 d g2 h2. Compress fl b g h = (Inr c, g1, h1) \<and>
      slice_bytes h1 (Some c) = gzip_encode fl b \<and>
      Decompress fl (slice_bytes h1 (Some c)) g1 h1 = (Inr d, g2, h2) \<and>
      slice_bytes h2 (Some d) = b"
proof -
  from Compress_result [OF assms(1), of fl b] obtain c g1 h1 where
    C: "Compress fl b g h = (Inr c, g1, h1)" "slice_bytes h1 (Some c) = gzip_encode fl b"
      "instance_ok g1 h1" by blast
  from C(3) have ri: "\<not> readerInitialised g1" by (simp add: instance_ok_def)
  from Decompress_success [OF ri gunzip_gzip_encode [OF assms(2)], of b h1] C(2)
  obtain d g2 h2 where "Decompress fl (slice_bytes h1 (Some c)) g1 h1 = (Inr d, g2, h2)"
    "slice_bytes h2 (Some d) = b" by auto
  with C show ?thesis by blast
qed

subsection \<open>The example file\<close>

lemma crc32_A: "crc32_Update 0 [0x41] = 0xD3D99E8B"
  by code_simp

lemma gzip_encode_stored_A: "gzip_encode stored [0x41] = gz_A"
  by (simp add: gzip_encode_def gzip_trailer_def crc32_A stored_def deflate_stored.simps
      stored_block_def gzip_header_def le_PutUint32_def le_PutUint16_def gz_A_def)

lemma gunzip_stored_A: "gunzip stored gz_A = Inr [0x41]"
  using gunzip_gzip_encode [OF flate_roundtrip_stored, of "[0x41]"]
  by (simp add: gzip_encode_stored_A)

lemma not_readerInitialised_New: "\<not> readerInitialised NewCompressor"
  by (simp add: NewCompressor_def)

lemma length_gzip_encode_stored_BC: "length (gzip_encode stored [0x42, 0x43]) = 25"
  by (simp add: length_gzip_encode stored_def deflate_stored.simps)

section \<open>Properties\<close>

subsection \<open>The advisory predicates\<close>

text \<open>
  Claim C5. \<^verbatim>\<open>IsCompressable\<close> is false on every input of at most 128 bytes (the
  threshold constant) and true on every input of more than 128 bytes.
\<close>

theorem IsCompressable_threshold:
  "(length msg \<le> 128 \<longrightarrow> \<not> IsCompressable msg) \<and>
   (length msg > 128 \<longrightarrow> IsCompressable msg)"
  by (simp add: IsCompressable_def compressionThresholdBytes_def)

theorem IsCompressable_threshold_witness:
  "\<not> IsCompressable (replicate 127 0) \<and> \<not> IsCompressable (replicate 128 0) \<and>
   IsCompressable (replicate 129 0)"
  using IsCompressable_threshold [of "replicate 127 0"]
    IsCompressable_threshold [of "replicate 128 0"]
    IsCompressable_threshold [of "replicate 129 0"]
  by simp

text \<open>
  Claim C2, as stated: \<^verbatim>\<open>IsDecompressable\<close> is true on every input of at least 10
  bytes. The gate in the code is strict, so an input of exactly 10 bytes is refused.
\<close>

theorem IsDecompressable_at_header_length_counterexample:
  "length (replicate 10 (0::byte)) \<ge> 10 \<and> \<not> IsDecompressable (replicate 10 0)"
  by (simp add: IsDecompressable_def)

text \<open>
  Claim C2, amended: \<^verbatim>\<open>IsDecompressable\<close> is false on every input of at most 10
  bytes and true on every input of more than 10 bytes.
\<close>

theorem IsDecompressable_strict_gate:
  "(length msg \<le> 10 \<longrightarrow> \<not> IsDecompressable msg) \<and>
   (length msg > 10 \<longrightarrow> IsDecompressable msg)"
  by (simp add: IsDecompressable_def)

theorem IsDecompressable_strict_gate_witness:
  "\<not> IsDecompressable (replicate 9 0) \<and> \<not> IsDecompressable (replicate 10 0) \<and>
   IsDecompressable (replicate 11 0)"
  using IsDecompressable_strict_gate [of "replicate 9 0"]
    IsDecompressable_strict_gate [of "replicate 10 0"]
    IsDecompressable_strict_gate [of "replicate 11 0"]
  by simp

subsection \<open>Compress\<close>

text \<open>
  Claim C9. On a well-formed instance (every instance reached from \<^verbatim>\<open>NewCompressor\<close> is
  one) \<^verbatim>\<open>Compress\<close> returns encoded bytes and a nil error for every input: the header,
  body and trailer writes all go to the in-memory buffer, whose \<^verbatim>\<open>Write\<close> never reports
  an error, and the reset clears the Writer's sticky error and closed flag.
\<close>

theorem Compress_never_fails:
  assumes "instance_ok g h"
  shows "\<exists>c g' h'. Compress fl msg g h = (Inr c, g', h')"
  using Compress_result [OF assms, of fl msg] by blast

theorem Compress_never_fails_witness:
  "instance_ok NewCompressor empty_heap \<and>
   (\<exists>c g' h'. Compress stored (replicate 200 7) NewCompressor empty_heap = (Inr c, g', h'))"
  by (intro conjI instance_ok_NewCompressor Compress_never_fails [OF instance_ok_NewCompressor])

text \<open>
  Claim C10. Whatever the input, the bytes \<^verbatim>\<open>Compress\<close> returns pass
  \<^verbatim>\<open>IsDecompressable\<close>: a gzip member is a 10-byte header, a DEFLATE stream and an
  8-byte trailer, so it is longer than 10 bytes whatever the coder emits.
\<close>

theorem Compress_output_IsDecompressable:
  assumes "instance_ok g h" "Compress fl b g h = (res, g', h')"
  shows "\<exists>c. res = Inr c \<and> IsDecompressable (slice_bytes h' (Some c))"
proof -
  from Compress_result [OF assms(1), of fl b] assms(2)
  obtain c where "res = Inr c" "slice_bytes h' (Some c) = gzip_encode fl b"
    by auto
  then show ?thesis by (simp add: IsDecompressable_def length_gzip_encode)
qed

theorem Compress_output_IsDecompressable_witness:
  "instance_ok NewCompressor empty_heap \<and>
   (\<exists>c g' h'. Compress stored [] NewCompressor empty_heap = (Inr c, g', h') \<and>
      IsDecompressable (slice_bytes h' (Some c)))"
proof -
  obtain res g' h' where C: "Compress stored [] NewCompressor empty_heap = (res, g', h')"
    by (cases "Compress stored [] NewCompressor empty_heap")
  from Compress_output_IsDecompressable [OF instance_ok_NewCompressor C]
  obtain c where "res = Inr c" "IsDecompressable (slice_bytes h' (Some c))" by blast
  with C have "\<exists>c g' h'. Compress stored [] NewCompressor empty_heap = (Inr c, g', h') \<and>
      IsDecompressable (slice_bytes h' (Some c))" by blast
  with instance_ok_NewCompressor [of empty_heap] show ?thesis by (rule conjI)
qed

subsection \<open>Round trip\<close>

text \<open>
  Claim C1. For every byte sequence \<open>b\<close>, \<^verbatim>\<open>Compress\<close> on a well-formed instance followed
  by \<^verbatim>\<open>Decompress\<close> of the returned bytes on the same instance returns exactly \<open>b\<close>,
  given a DEFLATE coder whose decoder inverts its encoder.
\<close>

theorem Compress_Decompress_roundtrip:
  assumes "instance_ok g h" "flate_roundtrip fl"
  shows "\<exists>c g1 h1 d g2 h2. Compress fl b g h = (Inr c, g1, h1) \<and>
      Decompress fl (slice_bytes h1 (Some c)) g1 h1 = (Inr d, g2, h2) \<and>
      slice_bytes h2 (Some d) = b"
  using Compress_then_Decompress [OF assms, of b] by blast

theorem Compress_Decompress_roundtrip_witness:
  "instance_ok NewCompressor empty_heap \<and> flate_roundtrip stored \<and>
   (\<exists>c g1 h1 d g2 h2. Compress stored [] NewCompressor empty_heap = (Inr c, g1, h1) \<and>
      Decompress stored (slice_bytes h1 (Some c)) g1 h1 = (Inr d, g2, h2) \<and>
      slice_bytes h2 (Some d) = [])"
  by (intro conjI instance_ok_NewCompressor flate_roundtrip_stored
      Compress_Decompress_roundtrip [OF instance_ok_NewCompressor flate_roundtrip_stored])

text \<open>
  Claim C7. The one-byte input \<^verbatim>\<open>[0x41]\<close> is below the threshold, so \<^verbatim>\<open>IsCompressable\<close>
  is false for it; \<^verbatim>\<open>Compress\<close> succeeds on it all the same and the result decompresses
  to \<^verbatim>\<open>[0x41]\<close>.
\<close>

theorem Compress_below_threshold:
  assumes "instance_ok g h" "flate_roundtrip fl"
  shows "\<not> IsCompressable [0x41] \<and>
    (\<exists>c g1 h1 d g2 h2. Compress fl [0x41] g h = (Inr c, g1, h1) \<and>
      Decompress fl (slice_bytes h1 (Some c)) g1 h1 = (Inr d, g2, h2) \<and>
      slice_bytes h2 (Some d) = [0x41])"
proof
  show "\<not> IsCompressable [0x41]"
    by (simp add: IsCompressable_def compressionThresholdBytes_def)
  show "\<exists>c g1 h1 d g2 h2. Compress fl [0x41] g h = (Inr c, g1, h1) \<and>
      Decompress fl (slice_bytes h1 (Some c)) g1 h1 = (Inr d, g2, h2) \<and>
      slice_bytes h2 (Some d) = [0x41]"
    using Compress_then_Decompress [OF assms, of "[0x41]"] by blast
qed

theorem Compress_below_threshold_witness:
  "instance_ok NewCompressor empty_heap \<and> flate_roundtrip stored \<and>
   \<not> IsCompressable [0x41] \<and>
    (\<exists>c g1 h1 d g2 h2. Compress stored [0x41] NewCompressor empty_heap = (Inr c, g1, h1) \<and>
      Decompress stored (slice_bytes h1 (Some c)) g1 h1 = (Inr d, g2, h2) \<and>
      slice_bytes h2 (Some d) = [0x41])"
  by (intro conjI instance_ok_NewCompressor flate_roundtrip_stored
      Compress_below_threshold [OF instance_ok_NewCompressor flate_roundtrip_stored,
        of empty_heap, THEN conjunct1]
      Compress_below_threshold [OF instance_ok_NewCompressor flate_roundtrip_stored,
        of empty_heap, THEN conjunct2])

subsection \<open>The two halves of the instance\<close>

text \<open>The write side: the first call binds, every later call keeps the same two objects.\<close>

lemma Compress_binds_writer:
  assumes "instance_ok g h" "\<not> writerInitialised g" "Compress fl msg g h = (res, g', h')"
  shows "writerInitialised g' \<and> writeBuffer g' = Some (nextAddr h) \<and>
    gzipWriter g' = Some (Suc (nextAddr h))"
proof (rule Compress_step [OF assms(1), of fl msg])
  fix r g0 h0
  assume "Compress fl msg g h = (Inr r, g0, h0)" "writerInitialised g0"
    "\<not> writerInitialised g \<longrightarrow>
       writeBuffer g0 = Some (nextAddr h) \<and> gzipWriter g0 = Some (Suc (nextAddr h))"
  with assms(2,3) show ?thesis by simp
qed

lemma Compress_reuses_writer:
  assumes "instance_ok g h" "writerInitialised g" "Compress fl msg g h = (res, g', h')"
  shows "g' = g"
proof (rule Compress_step [OF assms(1), of fl msg])
  fix r g0 h0
  assume "Compress fl msg g h = (Inr r, g0, h0)" "writerInitialised g \<longrightarrow> g0 = g"
  with assms(2,3) show ?thesis by simp
qed

text \<open>The read side: no path through \<^verbatim>\<open>resetReader\<close> changes \<^verbatim>\<open>readerInitialised\<close>.\<close>

lemma resetReader_keeps_flag:
  "resetReader msg g h = (e, g', h') \<Longrightarrow> readerInitialised g' = readerInitialised g"
  by (auto simp: resetReader_def bytes_NewReader_def Let_def
      split: if_splits option.splits prod.splits sum.splits)

text \<open>
  Claim C3 says that each half binds on its first call and is reset and rebound by every
  later call. The write half does (the two lemmas above). The read half does not:
  \<^verbatim>\<open>resetReader\<close> never sets \<^verbatim>\<open>readerInitialised\<close>, so two successive successful calls of
  \<^verbatim>\<open>Decompress\<close> both leave the flag false and each installs a newly constructed
  \<^verbatim>\<open>gzip.Reader\<close>, at an address that was not allocated before the call.
\<close>

theorem Decompress_never_binds_reader:
  assumes "instance_ok g h" "Decompress fl m1 g h = (Inr d1, g1, h1)"
    "Decompress fl m2 g1 h1 = (Inr d2, g2, h2)"
  shows "\<not> readerInitialised g1 \<and> \<not> readerInitialised g2 \<and>
    gzipReader g1 = Some (Suc (nextAddr h)) \<and> gzipReader g2 = Some (Suc (nextAddr h1)) \<and>
    gzipReader g2 \<noteq> gzipReader g1"
proof -
  from assms(1) have r0: "\<not> readerInitialised g" by (simp add: instance_ok_def)
  have r1: "\<not> readerInitialised g1" by (rule Decompress_keeps_writer(2) [OF r0 assms(2)])
  have r2: "\<not> readerInitialised g2" by (rule Decompress_keeps_writer(2) [OF r1 assms(3)])
  from Decompress_result [OF r0 assms(2)]
  have a: "gzipReader g1 = Some (Suc (nextAddr h))" "nextAddr h1 = nextAddr h + 4" by simp_all
  from Decompress_result [OF r1 assms(3)]
  have b: "gzipReader g2 = Some (Suc (nextAddr h1))" by simp
  from a b r1 r2 show ?thesis by simp
qed

theorem Decompress_never_binds_reader_witness:
  "instance_ok NewCompressor empty_heap \<and>
   (\<exists>d1 g1 h1 d2 g2 h2. Decompress stored gz_A NewCompressor empty_heap = (Inr d1, g1, h1) \<and>
      Decompress stored gz_A g1 h1 = (Inr d2, g2, h2) \<and>
      \<not> readerInitialised g1 \<and> \<not> readerInitialised g2 \<and>
      gzipReader g1 = Some 1 \<and> gzipReader g2 = Some 5)"
proof -
  from Decompress_success [OF not_readerInitialised_New gunzip_stored_A, of empty_heap]
  obtain d1 g1 h1 where D1: "Decompress stored gz_A NewCompressor empty_heap = (Inr d1, g1, h1)"
    by blast
  have r1: "\<not> readerInitialised g1"
    by (rule Decompress_keeps_writer(2) [OF not_readerInitialised_New D1])
  from Decompress_success [OF r1 gunzip_stored_A, of h1]
  obtain d2 g2 h2 where D2: "Decompress stored gz_A g1 h1 = (Inr d2, g2, h2)" by blast
  from Decompress_result [OF not_readerInitialised_New D1]
  have n1: "nextAddr h1 = 4" by (simp add: empty_heap_def)
  from Decompress_never_binds_reader [OF instance_ok_NewCompressor D1 D2] n1
  have "\<not> readerInitialised g1 \<and> \<not> readerInitialised g2 \<and>
      gzipReader g1 = Some 1 \<and> gzipReader g2 = Some 5"
    by (simp add: empty_heap_def)
  with D1 D2 have "\<exists>d1 g1 h1 d2 g2 h2.
      Decompress stored gz_A NewCompressor empty_heap = (Inr d1, g1, h1) \<and>
      Decompress stored gz_A g1 h1 = (Inr d2, g2, h2) \<and>
      \<not> readerInitialised g1 \<and> \<not> readerInitialised g2 \<and>
      gzipReader g1 = Some 1 \<and> gzipReader g2 = Some 5"
    by blast
  with instance_ok_NewCompressor [of empty_heap] show ?thesis by (rule conjI)
qed

text \<open>
  The reset branch of \<^verbatim>\<open>resetReader\<close>, taken by itself: with \<^verbatim>\<open>readerInitialised\<close> set, an
  \<^verbatim>\<open>io.EOF\<close> from the decoder's \<^verbatim>\<open>Reset\<close> is let through, and \<^verbatim>\<open>Decompress\<close> then returns
  the empty byte sequence unless the decoder object still carries an error of an earlier
  read. No instance reached from \<^verbatim>\<open>NewCompressor\<close> takes this branch, since no method
  sets the flag; the example state sets it by hand.
\<close>

lemma Reader_Reset_EOF:
  assumes "fst (Reader_Reset pz pr h1) = Some EOF"
  shows "\<exists>z. readers h1 pz = Some z \<and>
    Reader_Reset pz pr h1 = (Some EOF, h1\<lparr>readers := (readers h1)(pz \<mapsto>
       \<lparr>r_r = pr, r_decompressor = r_decompressor z, r_err = Some EOF\<rparr>)\<rparr>)"
  using assms
  by (auto simp: Reader_Reset_def split: option.splits sum.splits)

lemma bytes_Reader_Reset_readers:
  "bytes_Reader_Reset pr msg h = (e, h1) \<Longrightarrow> readers h1 = readers h"
  by (auto simp: bytes_Reader_Reset_def split: option.splits)

lemma reset_branch_lets_EOF_pass:
  assumes "readerInitialised g" "bytesReader g = Some pr" "gzipReader g = Some pz"
    and "bytes_Reader_Reset pr msg h = (None, h1)"
    and "fst (Reader_Reset pz pr h1) = Some EOF"
  shows "fst (resetReader msg g h) = None \<and> fst (Decompress fl msg g h) \<noteq> Inl EOF \<and>
    (\<forall>z. readers h pz = Some z \<longrightarrow>
       r_decompressor z = Some None \<or> r_decompressor z = Some (Some EOF) \<longrightarrow>
       (\<exists>d g' h'. Decompress fl msg g h = (Inr d, g', h') \<and> slice_bytes h' (Some d) = []))"
proof -
  from Reader_Reset_EOF [OF assms(5)] obtain z where
    z: "readers h1 pz = Some z" and
    R: "Reader_Reset pz pr h1 = (Some EOF, h1\<lparr>readers := (readers h1)(pz \<mapsto>
       \<lparr>r_r = pr, r_decompressor = r_decompressor z, r_err = Some EOF\<rparr>)\<rparr>)"
    by blast
  define h2 where "h2 = h1\<lparr>readers := (readers h1)(pz \<mapsto>
       \<lparr>r_r = pr, r_decompressor = r_decompressor z, r_err = Some EOF\<rparr>)\<rparr>"
  have zh: "readers h pz = Some z"
    using z bytes_Reader_Reset_readers [OF assms(4)] by simp
  have rr: "resetReader msg g h = (None, g, h2)"
    using assms(1-4) R by (simp add: resetReader_def h2_def)
  have ra: "io_ReadAll fl pz h2 = (Inr \<lparr>sl_arr = nextAddr h2, sl_len = 0\<rparr>,
      h2\<lparr>nextAddr := Suc (nextAddr h2), arrays := (arrays h2)(nextAddr h2 \<mapsto> [])\<rparr>)"
    by (simp add: io_ReadAll_def h2_def make_bytes_def)
  define h3 where "h3 = h2\<lparr>nextAddr := Suc (nextAddr h2), arrays := (arrays h2)(nextAddr h2 \<mapsto> [])\<rparr>"
  have cl: "Reader_Close pz h3 =
      (case r_decompressor z of None \<Rightarrow> Some NilPointerPanic
       | Some ferr \<Rightarrow> if ferr = Some EOF then None else ferr)"
    by (simp add: Reader_Close_def h3_def h2_def)
  have D: "Decompress fl msg g h =
      (case Reader_Close pz h3 of
         Some e \<Rightarrow> (Inl e, g, h3)
       | None \<Rightarrow>
          (Inr \<lparr>sl_arr = nextAddr h3, sl_len = 0\<rparr>, g,
           h3\<lparr>nextAddr := Suc (nextAddr h3), arrays := (arrays h3)(nextAddr h3 \<mapsto> [])\<rparr>))"
    using rr assms(3) ra
    by (simp add: Decompress_def h3_def [symmetric] make_bytes_def copy_bytes_def write_at_def
        split: option.splits)
  have 1: "fst (resetReader msg g h) = None" using rr by simp
  have 2: "fst (Decompress fl msg g h) \<noteq> Inl EOF"
    unfolding D cl by (auto split: option.splits)
  have 3: "\<exists>d g' h'. Decompress fl msg g h = (Inr d, g', h') \<and> slice_bytes h' (Some d) = []"
    if "readers h pz = Some z'" "r_decompressor z' = Some None \<or> r_decompressor z' = Some (Some EOF)"
    for z'
  proof -
    from that zh have "r_decompressor z = Some None \<or> r_decompressor z = Some (Some EOF)" by simp
    then have "Reader_Close pz h3 = None" unfolding cl by auto
    then show ?thesis unfolding D by (simp add: slice_bytes_def)
  qed
  from 1 2 3 show ?thesis by blast
qed

lemma reset_branch_lets_EOF_pass_example:
  "readerInitialised (fst bound_reader_state) \<and>
   bytesReader (fst bound_reader_state) = Some 0 \<and> gzipReader (fst bound_reader_state) = Some 1 \<and>
   fst (bytes_Reader_Reset 0 [] (snd bound_reader_state)) = None \<and>
   fst (Reader_Reset 1 0 (snd (bytes_Reader_Reset 0 [] (snd bound_reader_state)))) = Some EOF \<and>
   fst (resetReader [] (fst bound_reader_state) (snd bound_reader_state)) = None \<and>
   (\<exists>d g' h'. Decompress stored [] (fst bound_reader_state) (snd bound_reader_state) = (Inr d, g', h') \<and>
      slice_bytes h' (Some d) = [])"
proof -
  let ?g = "fst bound_reader_state" and ?h = "snd bound_reader_state"
  obtain h1 where b: "bytes_Reader_Reset 0 [] ?h = (None, h1)"
    by (simp add: bound_reader_state_def bytes_Reader_Reset_def)
  have hyp: "readerInitialised ?g" "bytesReader ?g = Some 0" "gzipReader ?g = Some 1"
    by (simp_all add: bound_reader_state_def)
  have r: "fst (Reader_Reset 1 0 h1) = Some EOF"
    using b by (auto simp: bound_reader_state_def bytes_Reader_Reset_def Reader_Reset_def
        readHeader_Nil)
  have z: "readers ?h 1 = Some \<lparr>r_r = 0, r_decompressor = Some (Some EOF), r_err = Some EOF\<rparr>"
    by (simp add: bound_reader_state_def)
  from reset_branch_lets_EOF_pass [OF hyp b r, of stored] z
  have "fst (resetReader [] ?g ?h) = None"
    "\<exists>d g' h'. Decompress stored [] ?g ?h = (Inr d, g', h') \<and> slice_bytes h' (Some d) = []"
    by simp_all
  with hyp b r show ?thesis by simp
qed

text \<open>The construction branch, which every reachable instance takes, returns the
  \<^verbatim>\<open>io.EOF\<close> of \<^verbatim>\<open>gzip.NewReader\<close> on the empty input.\<close>

lemma resetReader_construct_EOF:
  assumes "\<not> readerInitialised g"
  shows "fst (resetReader [] g h) = Some EOF"
  using assms
  by (simp add: resetReader_def bytes_NewReader_def gzip_NewReader_def Reader_Reset_def
      readHeader_Nil)

lemma gunzip_Nil: "gunzip fl [] = Inl EOF"
  by (simp add: gunzip_def readHeader_Nil)

text \<open>
  Claim C6 says that the end-of-stream signal met when \<^verbatim>\<open>Decompress\<close> rebinds the
  already initialised decoder is not fatal. In the code it is: after a successful
  \<^verbatim>\<open>Decompress\<close> on a well-formed instance, the read half is still not marked initialised,
  so a \<^verbatim>\<open>Decompress\<close> of the empty input constructs a new reader instead of resetting the
  existing one, \<^verbatim>\<open>resetReader\<close> returns the \<^verbatim>\<open>io.EOF\<close> and \<^verbatim>\<open>Decompress\<close> fails with it.
\<close>

theorem Decompress_end_of_stream_fatal:
  assumes "instance_ok g h" "Decompress fl msg g h = (Inr d, g1, h1)"
  shows "fst (resetReader [] g1 h1) = Some EOF \<and> fst (Decompress fl [] g1 h1) = Inl EOF"
proof -
  from assms(1) have r0: "\<not> readerInitialised g" by (simp add: instance_ok_def)
  have r1: "\<not> readerInitialised g1" by (rule Decompress_keeps_writer(2) [OF r0 assms(2)])
  from resetReader_construct_EOF [OF r1] Decompress_failure [OF r1 gunzip_Nil]
  show ?thesis by simp
qed

theorem Decompress_end_of_stream_fatal_witness:
  "instance_ok NewCompressor empty_heap \<and>
   (\<exists>d g1 h1. Decompress stored gz_A NewCompressor empty_heap = (Inr d, g1, h1) \<and>
      fst (resetReader [] g1 h1) = Some EOF \<and> fst (Decompress stored [] g1 h1) = Inl EOF)"
proof -
  from Decompress_success [OF not_readerInitialised_New gunzip_stored_A, of empty_heap]
  obtain d g1 h1 where D: "Decompress stored gz_A NewCompressor empty_heap = (Inr d, g1, h1)"
    by blast
  from Decompress_end_of_stream_fatal [OF instance_ok_NewCompressor D] D
  have "\<exists>d g1 h1. Decompress stored gz_A NewCompressor empty_heap = (Inr d, g1, h1) \<and>
      fst (resetReader [] g1 h1) = Some EOF \<and> fst (Decompress stored [] g1 h1) = Inl EOF"
    by blast
  with instance_ok_NewCompressor [of empty_heap] show ?thesis by (rule conjI)
qed

subsection \<open>Corrupted input\<close>

lemma corrupt_trailer:
  assumes "c = gzip_encode fl b" "length c - 8 \<le> i" "i < length c" "v \<noteq> c ! i"
  shows "\<exists>tr. c[i := v] = gzip_header @ deflate fl b @ tr \<and> length tr = 8 \<and> tr \<noteq> gzip_trailer b"
proof -
  define pre where "pre = gzip_header @ deflate fl b"
  define tr where "tr = gzip_trailer b"
  have c: "c = pre @ tr" and ltr: "length tr = 8"
    by (simp_all add: assms(1) gzip_encode_def pre_def tr_def)
  from assms(2,3) have i: "length pre \<le> i" "i - length pre < length tr"
    by (simp_all add: c ltr)
  from i(1) have upd: "c[i := v] = pre @ tr[i - length pre := v]"
    by (simp add: c list_update_append)
  from i(1) have "c ! i = tr ! (i - length pre)"
    by (simp add: c nth_append)
  with assms(4) i(2) have "tr[i - length pre := v] ! (i - length pre) \<noteq> tr ! (i - length pre)"
    by simp
  then have "tr[i - length pre := v] \<noteq> tr" by metis
  with upd ltr show ?thesis by (auto simp: pre_def tr_def)
qed

text \<open>
  Claim C4. On a well-formed instance \<^verbatim>\<open>Decompress\<close> fails with an error, and returns no
  data, on bytes that do not begin with the gzip magic and method, on every proper prefix of
  a \<^verbatim>\<open>Compress\<close> output, and on a \<^verbatim>\<open>Compress\<close> output with one of its eight trailer bytes
  changed (there with \<^verbatim>\<open>gzip.ErrChecksum\<close>), given a DEFLATE coder whose decoder inverts
  its encoder and reads its input front to back.
\<close>

theorem Decompress_rejects_corruption:
  assumes "instance_ok g h" "flate_roundtrip fl" "flate_sequential fl"
    and "instance_ok g0 h0" "Compress fl b g0 h0 = (Inr r, g1, h1)"
    and "c = slice_bytes h1 (Some r)"
  shows "(take 3 msg \<noteq> [0x1f, 0x8b, 8] \<longrightarrow> (\<exists>e. fst (Decompress fl msg g h) = Inl e)) \<and>
    (n < length c \<longrightarrow> (\<exists>e. fst (Decompress fl (take n c) g h) = Inl e)) \<and>
    (length c - 8 \<le> i \<and> i < length c \<and> v \<noteq> c ! i \<longrightarrow>
       fst (Decompress fl (c[i := v]) g h) = Inl ErrChecksum)"
proof -
  from assms(1) have ri: "\<not> readerInitialised g" by (simp add: instance_ok_def)
  from Compress_result [OF assms(4), of fl b] assms(5,6)
  have c: "c = gzip_encode fl b" by auto
  have "\<exists>e. fst (Decompress fl msg g h) = Inl e" if "take 3 msg \<noteq> [0x1f, 0x8b, 8]"
  proof -
    from gunzip_bad_magic [OF that, of fl] obtain e where "gunzip fl msg = Inl e" by blast
    from Decompress_failure [OF ri this] show ?thesis by blast
  qed
  moreover have "\<exists>e. fst (Decompress fl (take n c) g h) = Inl e" if "n < length c"
  proof -
    from gunzip_truncated [OF assms(2,3), of n b] that c
    obtain e where "gunzip fl (take n c) = Inl e" by blast
    from Decompress_failure [OF ri this] show ?thesis by blast
  qed
  moreover have "fst (Decompress fl (c[i := v]) g h) = Inl ErrChecksum"
    if "length c - 8 \<le> i \<and> i < length c \<and> v \<noteq> c ! i"
  proof -
    from corrupt_trailer [OF c] that obtain tr where
      tr: "c[i := v] = gzip_header @ deflate fl b @ tr" "length tr = 8" "tr \<noteq> gzip_trailer b"
      by blast
    from gunzip_bad_trailer [OF assms(2) tr(2,3)] tr(1)
    have "gunzip fl (c[i := v]) = Inl ErrChecksum" by simp
    from Decompress_failure [OF ri this] show ?thesis .
  qed
  ultimately show ?thesis by blast
qed

theorem Decompress_rejects_corruption_witness:
  "instance_ok NewCompressor empty_heap \<and> flate_roundtrip stored \<and> flate_sequential stored \<and>
   (\<exists>r g1 h1. Compress stored [0x41] NewCompressor empty_heap = (Inr r, g1, h1) \<and>
      slice_bytes h1 (Some r) = gz_A) \<and>
   (\<exists>e. fst (Decompress stored [1, 2, 3, 4] NewCompressor empty_heap) = Inl e) \<and>
   (\<exists>e. fst (Decompress stored (take 23 gz_A) NewCompressor empty_heap) = Inl e) \<and>
   fst (Decompress stored (gz_A[20 := 0]) NewCompressor empty_heap) = Inl ErrChecksum"
proof -
  from Compress_result [OF instance_ok_NewCompressor, of stored "[0x41]" empty_heap]
  obtain r g1 h1 where C: "Compress stored [0x41] NewCompressor empty_heap = (Inr r, g1, h1)"
    and b: "slice_bytes h1 (Some r) = gz_A"
    by (auto simp: gzip_encode_stored_A)
  note th = Decompress_rejects_corruption [OF instance_ok_NewCompressor flate_roundtrip_stored
      flate_sequential_stored instance_ok_NewCompressor C b [symmetric],
      of "[1, 2, 3, 4]" empty_heap 23 20 0]
  have "take 3 [1, 2, 3, 4 :: byte] \<noteq> [0x1f, 0x8b, 8]" by simp
  with th have 1: "\<exists>e. fst (Decompress stored [1, 2, 3, 4] NewCompressor empty_heap) = Inl e"
    by blast
  have "23 < length gz_A" by (simp add: gz_A_def)
  with th have 2: "\<exists>e. fst (Decompress stored (take 23 gz_A) NewCompressor empty_heap) = Inl e"
    by blast
  have "length gz_A - 8 \<le> 20 \<and> 20 < length gz_A \<and> 0 \<noteq> gz_A ! 20" by (simp add: gz_A_def)
  with th have 3: "fst (Decompress stored (gz_A[20 := 0]) NewCompressor empty_heap) = Inl ErrChecksum"
    by blast
  from C b have 0: "\<exists>r g1 h1. Compress stored [0x41] NewCompressor empty_heap = (Inr r, g1, h1) \<and>
      slice_bytes h1 (Some r) = gz_A" by blast
  from instance_ok_NewCompressor [of empty_heap] flate_roundtrip_stored flate_sequential_stored
    0 1 2 3
  show ?thesis by (intro conjI)
qed

subsection \<open>Ownership of the returned bytes\<close>

text \<open>
  Claim C8. The slice a successful \<^verbatim>\<open>Compress\<close> or \<^verbatim>\<open>Decompress\<close> returns is allocated
  by that call and is not the backing array of the instance's reusable write buffer;
  its bytes are the same after any sequence of later calls of either operation on the
  instance.
\<close>

theorem returned_bytes_independent:
  assumes "instance_ok g h"
    and "Compress fl msg g h = (Inr c, g1, h1) \<or> Decompress fl msg g h = (Inr c, g1, h1)"
    and "run_calls fl cs g1 h1 = (g2, h2)"
  shows "nextAddr h \<le> sl_arr c \<and> detached c g1 h1 \<and>
    slice_bytes h2 (Some c) = slice_bytes h1 (Some c)"
  using assms(2)
proof
  assume C: "Compress fl msg g h = (Inr c, g1, h1)"
  from Compress_result_detached [OF assms(1) C]
  have d: "nextAddr h \<le> sl_arr c" "detached c g1 h1" by simp_all
  from run_calls_detached [OF Compress_instance_ok [OF assms(1) C] d(2) assms(3)] d
  show ?thesis by simp
next
  assume D: "Decompress fl msg g h = (Inr c, g1, h1)"
  from Decompress_result_detached [OF assms(1) D]
  have d: "nextAddr h \<le> sl_arr c" "detached c g1 h1" by simp_all
  from run_calls_detached [OF Decompress_instance_ok [OF assms(1) D] d(2) assms(3)] d
  show ?thesis by simp
qed

theorem returned_bytes_independent_witness:
  "instance_ok NewCompressor empty_heap \<and>
   (\<exists>c g1 h1 g2 h2. Compress stored [0x41] NewCompressor empty_heap = (Inr c, g1, h1) \<and>
      run_calls stored [Call_Compress [0x42, 0x43]] g1 h1 = (g2, h2) \<and>
      detached c g1 h1 \<and>
      wbuf_contents g1 h1 = gz_A \<and> wbuf_contents g2 h2 \<noteq> gz_A \<and>
      slice_bytes h1 (Some c) = gz_A \<and> slice_bytes h2 (Some c) = gz_A)"
proof -
  from Compress_result [OF instance_ok_NewCompressor, of stored "[0x41]" empty_heap]
  obtain c g1 h1 where C1: "Compress stored [0x41] NewCompressor empty_heap = (Inr c, g1, h1)"
    and b1: "slice_bytes h1 (Some c) = gz_A" and ok1: "instance_ok g1 h1"
    and w1: "wbuf_contents g1 h1 = gz_A"
    by (auto simp: gzip_encode_stored_A)
  from Compress_result [OF ok1, of stored "[0x42, 0x43]"]
  obtain c2 g2 h2 where C2: "Compress stored [0x42, 0x43] g1 h1 = (Inr c2, g2, h2)"
    and w2: "wbuf_contents g2 h2 = gzip_encode stored [0x42, 0x43]"
    by blast
  from C2 have run: "run_calls stored [Call_Compress [0x42, 0x43]] g1 h1 = (g2, h2)" by simp
  have "length (wbuf_contents g2 h2) \<noteq> length gz_A"
    unfolding w2 length_gzip_encode_stored_BC by (simp add: gz_A_def)
  then have ne: "wbuf_contents g2 h2 \<noteq> gz_A" by auto
  from returned_bytes_independent [OF instance_ok_NewCompressor disjI1 [OF C1] run] b1
  have "detached c g1 h1" "slice_bytes h2 (Some c) = gz_A" by simp_all
  with C1 run w1 ne b1
  have "\<exists>c g1 h1 g2 h2. Compress stored [0x41] NewCompressor empty_heap = (Inr c, g1, h1) \<and>
      run_calls stored [Call_Compress [0x42, 0x43]] g1 h1 = (g2, h2) \<and>
      detached c g1 h1 \<and>
      wbuf_contents g1 h1 = gz_A \<and> wbuf_contents g2 h2 \<noteq> gz_A \<and>
      slice_bytes h1 (Some c) = gz_A \<and> slice_bytes h2 (Some c) = gz_A"
    by blast
  with instance_ok_NewCompressor [of empty_heap] show ?thesis by (rule conjI)
qed

end
